theory Spec2Isabelle
  imports Complex_Main "HOL-Library.Word" "HOL-Library.List_Lexorder"
begin

unbundle bit_operations_syntax

section \<open>The multi-field range index of src/index/field_range_index.cc\<close>

text \<open>
  A shallow embedding of the posting-list \<open>Node\<close>, the per-field index
  \<open>FieldRangeIndex\<close> and the coordinator \<open>MultiFieldsRangeIndex\<close>.

  Conventions of the embedding.
  \<^item> A C++ \<open>int\<close> is an Isabelle \<open>int\<close>. Signed overflow is undefined in C++, so the
    model describes the executions in which no \<open>int\<close> computation overflows.
  \<^item> \<open>BM_OPERATE_TYPE\<close> is \<open>long\<close>, a 64-bit word; a bitmap buffer is a list of
    64-bit words, and bit \<open>i\<close> of the buffer is bit \<open>i mod 64\<close> of word \<open>i div 64\<close>
    (the layout of a little-endian target, where the byte-wise bitmap primitives and the
    \<open>long\<close>-wise loops of the source address the same bits).
  \<^item> An access outside a bitmap or slot buffer is undefined in C++. The model reads a
    zero there and drops the write; the inputs used below keep every such access inside
    its buffer. A read outside the vector \<open>fields_\<close> ends the run with the failure
    \<open>OutOfBounds\<close>.
  \<^item> \<open>malloc\<close> and \<open>bitmap::create\<close> are taken to succeed, and freshly allocated
    \<open>int\<close> slots, whose contents are indeterminate in C++, hold zero.
  \<^item> The reclamation queue \<open>res_q\<close> only receives superseded buffers; it has no
    influence on the values computed and is left out.
  \<^item> A mutating member function takes the object and returns the updated object
    together with the C++ return value.
\<close>

subsection \<open>Integers, loops and buffers\<close>

type_synonym byte = "8 word"
type_synonym bm_word = "64 word"

definition INT_MAX :: int where
  "INT_MAX = 2147483647"

definition op_len :: int where
  "op_len = 64"

text \<open>C++ integer division truncates towards zero.\<close>

definition cdiv :: "int \<Rightarrow> int \<Rightarrow> int" where
  "cdiv a b = sgn a * sgn b * (\<bar>a\<bar> div \<bar>b\<bar>)"

text \<open>\<open>for (int i = 0; i < n; ++i) body\<close>, and the same loop starting at \<open>a \<ge> 0\<close>.\<close>

definition for_loop :: "int \<Rightarrow> (int \<Rightarrow> 's \<Rightarrow> 's) \<Rightarrow> 's \<Rightarrow> 's" where
  "for_loop n body s = fold body (map int [0..<nat n]) s"

definition for_range :: "int \<Rightarrow> int \<Rightarrow> (int \<Rightarrow> 's \<Rightarrow> 's) \<Rightarrow> 's \<Rightarrow> 's" where
  "for_range a n body s = fold body (map int [nat a..<nat n]) s"

definition rd_word :: "bm_word list \<Rightarrow> int \<Rightarrow> bm_word" where
  "rd_word buf i = (if 0 \<le> i \<and> i < int (length buf) then buf ! nat i else 0)"

definition wr_word :: "bm_word list \<Rightarrow> int \<Rightarrow> bm_word \<Rightarrow> bm_word list" where
  "wr_word buf i w = (if 0 \<le> i \<and> i < int (length buf) then buf[nat i := w] else buf)"

definition rd_int :: "int list \<Rightarrow> int \<Rightarrow> int" where
  "rd_int buf i = (if 0 \<le> i \<and> i < int (length buf) then buf ! nat i else 0)"

definition wr_int :: "int list \<Rightarrow> int \<Rightarrow> int \<Rightarrow> int list" where
  "wr_int buf i v = (if 0 \<le> i \<and> i < int (length buf) then buf[nat i := v] else buf)"

definition malloc_int :: "int \<Rightarrow> int list" where
  "malloc_int n = replicate (nat n) 0"

subsection \<open>Bitmap primitives\<close>

text \<open>
  Modelled from the spec: the bitmap primitives of \<open>bitmap.h\<close>, which is not among the
  sources. The spec gives \<open>create(n_bits)\<close>, \<open>set(buf, i)\<close>, \<open>unset(buf, i)\<close> and
  \<open>test(buf, i)\<close> over words of width 64; \<open>create\<close> yields a zeroed buffer that
  holds \<open>n_bits\<close> bits, rounded up to whole words.
\<close>

definition bitmap_create :: "int \<Rightarrow> bm_word list" where
  "bitmap_create n_bits = replicate (nat ((n_bits + 63) div 64)) 0"

definition bitmap_set :: "bm_word list \<Rightarrow> int \<Rightarrow> bm_word list" where
  "bitmap_set buf i =
     wr_word buf (i div 64) (rd_word buf (i div 64) OR push_bit (nat (i mod 64)) 1)"

definition bitmap_unset :: "bm_word list \<Rightarrow> int \<Rightarrow> bm_word list" where
  "bitmap_unset buf i =
     wr_word buf (i div 64) (rd_word buf (i div 64) AND NOT (push_bit (nat (i mod 64)) 1))"

definition bitmap_test :: "bm_word list \<Rightarrow> int \<Rightarrow> bool" where
  "bitmap_test buf i = bit (rd_word buf (i div 64)) (nat (i mod 64))"

subsection \<open>The posting-list Node\<close>

datatype NodeType = Dense | Sparse

record Node =
  node_min :: int
  node_max :: int
  node_min_aligned :: int
  node_max_aligned :: int
  node_type :: NodeType
  node_capacity :: int
  node_size :: int
  data_dense :: "bm_word list"
  data_sparse :: "int list"
  n_extend :: int

text \<open>
  The members \<open>min_\<close>, \<open>max_\<close>, \<open>min_aligned_\<close>, \<open>max_aligned_\<close>, \<open>type_\<close>,
  \<open>capacity_\<close>, \<open>size_\<close>, \<open>data_dense_\<close>, \<open>data_sparse_\<close> and \<open>n_extend_\<close> of the
  class, in this order (a record field cannot end in an underscore). The constructor
  \<open>Node::Node\<close> follows; a null buffer is the empty list.
\<close>

definition Node_new :: Node where
  "Node_new = \<lparr> node_min = INT_MAX, node_max = -1, node_min_aligned = INT_MAX, node_max_aligned = -1,
                node_type = Sparse, node_capacity = 0, node_size = 0, data_dense = [],
                data_sparse = [], n_extend = 0 \<rparr>"

text \<open>The word-copy loops of \<open>AddDense\<close>: \<open>dst[i + shift] = ori[i]\<close> for \<open>i < n\<close>.\<close>

definition copy_words :: "int \<Rightarrow> int \<Rightarrow> bm_word list \<Rightarrow> bm_word list \<Rightarrow> bm_word list" where
  "copy_words n shift ori dst =
     for_loop n (\<lambda>i d. wr_word d (i + shift) (rd_word ori i)) dst"

definition AddDense :: "Node \<Rightarrow> int \<Rightarrow> int \<times> Node" where
  "AddDense n val =
     (if node_size n = 0 then
        let mn = cdiv val op_len * op_len;
            mx = (cdiv val op_len + 1) * op_len - 1;
            data = bitmap_create (mx - mn + 1)
        in (0, n\<lparr> node_min := val, node_max := val, node_min_aligned := mn, node_max_aligned := mx,
                   data_dense := bitmap_set data (val - mn), node_size := node_size n + 1 \<rparr>)
      else if val < node_min_aligned n then
        let min_aligned = cdiv val op_len * op_len;
            data = bitmap_create (node_max_aligned n - min_aligned + 1);
            data = copy_words (cdiv (node_max_aligned n - node_min_aligned n + 1) op_len)
                     (cdiv (node_min_aligned n - min_aligned) op_len) (data_dense n) data;
            data = bitmap_set data (val - min_aligned)
        in (0, n\<lparr> data_dense := data, node_min := val, node_min_aligned := min_aligned,
                   node_size := node_size n + 1 \<rparr>)
      else if val > node_max_aligned n then
        let max_aligned = (cdiv val op_len + 1) * op_len * 2 - 1;
            data = bitmap_create (max_aligned - node_min_aligned n + 1);
            data = copy_words (cdiv (node_max_aligned n - node_min_aligned n + 1) op_len) 0
                     (data_dense n) data;
            data = bitmap_set data (val - node_min_aligned n)
        in (0, n\<lparr> data_dense := data, node_max := val, node_max_aligned := max_aligned,
                   node_size := node_size n + 1 \<rparr>)
      else
        (0, n\<lparr> data_dense := bitmap_set (data_dense n) (val - node_min_aligned n),
                 node_min := min (node_min n) val, node_max := max (node_max n) val,
                 node_size := node_size n + 1 \<rparr>))"

text \<open>
  \<open>AddSparse\<close> in its three stages: the update of \<open>min_\<close>, \<open>max_\<close> and of the
  aligned bounds (the test on \<open>max_aligned_\<close> does not depend on the assignment to
  \<open>min_aligned_\<close> before it), the allocation or doubling of the buffer, and the store.
\<close>

definition sparse_bounds :: "Node \<Rightarrow> int \<Rightarrow> Node" where
  "sparse_bounds n val =
     n\<lparr> node_min := min (node_min n) val, node_max := max (node_max n) val,
        node_min_aligned :=
          (if val < node_min_aligned n then cdiv val op_len * op_len else node_min_aligned n),
        node_max_aligned :=
          (if val > node_max_aligned n then (cdiv val op_len + 1) * op_len - 1
           else node_max_aligned n) \<rparr>"

definition sparse_grow :: "Node \<Rightarrow> Node" where
  "sparse_grow n =
     (if node_capacity n = 0
      then n\<lparr> node_capacity := 1, data_sparse := malloc_int 1 \<rparr>
      else if node_size n \<ge> node_capacity n
      then n\<lparr> node_capacity := node_capacity n * 2,
               data_sparse :=
                 for_loop (node_size n) (\<lambda>i d. wr_int d i (rd_int (data_sparse n) i))
                   (malloc_int (node_capacity n * 2)) \<rparr>
      else n)"

definition AddSparse :: "Node \<Rightarrow> int \<Rightarrow> int \<times> Node" where
  "AddSparse n val =
     (let n = sparse_grow (sparse_bounds n val)
      in (0, n\<lparr> data_sparse := wr_int (data_sparse n) (node_size n) val,
                 node_size := node_size n + 1 \<rparr>))"

text \<open>
  The loop of \<open>ConvertToSparse\<close> walks the bit positions \<open>i < offset\<close> and stops
  early (\<open>break\<close>) when more bits are set than \<open>node_size\<close> announces.
\<close>

function cts_loop ::
  "bm_word list \<Rightarrow> int \<Rightarrow> int \<Rightarrow> int \<Rightarrow> int \<Rightarrow> int list \<Rightarrow> int \<Rightarrow> int list \<times> int" where
  "cts_loop dense min_al sz offset i sp idx =
     (if i < offset then
        (if bitmap_test dense i then
           (if idx \<ge> sz then (sp, idx)
            else cts_loop dense min_al sz offset (i + 1) (wr_int sp idx (i + min_al)) (idx + 1))
         else cts_loop dense min_al sz offset (i + 1) sp idx)
      else (sp, idx))"
  by pat_completeness auto
termination
  by (relation "measure (\<lambda>(dense, min_al, sz, offset, i, sp, idx). nat (offset - i))") auto

declare cts_loop.simps [simp del]

definition ConvertToSparse :: "Node \<Rightarrow> int \<times> Node" where
  "ConvertToSparse n =
     (let offset = node_max_aligned n - node_min_aligned n + 1;
          (sp, idx) = cts_loop (data_dense n) (node_min_aligned n) (node_size n) offset 0
                        (malloc_int (node_size n)) 0
      in (0, n\<lparr> data_sparse := sp, node_capacity := node_size n, node_type := Sparse,
                 data_dense := [] \<rparr>))"

definition ConvertToDense :: "Node \<Rightarrow> int \<times> Node" where
  "ConvertToDense n =
     (let data = bitmap_create (node_max_aligned n - node_min_aligned n + 1);
          data = for_loop (node_size n)
                   (\<lambda>i d. let val = rd_int (data_sparse n) i in
                           if val < node_min_aligned n \<or> val > node_max_aligned n then d
                           else bitmap_set d (val - node_min_aligned n)) data
      in (0, n\<lparr> data_dense := data, node_type := Dense, data_sparse := [] \<rparr>))"

text \<open>
  \<open>Node::Add\<close> computes \<open>density = (node_size * 1.) / offset\<close> in double precision and
  compares it with \<open>0.08\<close> and \<open>0.1\<close>, only when \<open>offset > 100000\<close>. For 32-bit
  \<open>node_size\<close> and \<open>offset\<close> the quotient is either equal to the decimal bound or differs
  from it by more than \<open>1 / (25 * 2 ^ 31)\<close>, far above the rounding error of a double,
  so each comparison agrees with the exact one on the integers, which the model uses.
\<close>

definition density_lt_008 :: "int \<Rightarrow> int \<Rightarrow> bool" where
  "density_lt_008 sz offset = (25 * sz < 2 * offset)"

definition density_gt_01 :: "int \<Rightarrow> int \<Rightarrow> bool" where
  "density_gt_01 sz offset = (10 * sz > offset)"

definition Node_Add :: "Node \<Rightarrow> int \<Rightarrow> int \<times> Node" where
  "Node_Add n val =
     (let offset = node_max n - node_min n in
      if node_type n = Dense then
        (if offset > 100000 \<and> density_lt_008 (node_size n) offset
         then AddSparse (snd (ConvertToSparse n)) val
         else AddDense n val)
      else
        (if offset > 100000 \<and> density_gt_01 (node_size n) offset
         then AddDense (snd (ConvertToDense n)) val
         else AddSparse n val))"

definition DeleteDense :: "Node \<Rightarrow> int \<Rightarrow> int \<times> Node" where
  "DeleteDense n val =
     (let pos = val - node_min_aligned n in
      if pos < 0 \<or> val > node_max_aligned n then (-1, n)
      else (0, n\<lparr> node_size := node_size n - 1,
                  data_dense := bitmap_unset (data_dense n) pos \<rparr>))"

text \<open>The search loop of \<open>DeleteSparse\<close>: the first \<open>i < node_size\<close> holding \<open>val\<close>.\<close>

function find_loop :: "int list \<Rightarrow> int \<Rightarrow> int \<Rightarrow> int \<Rightarrow> int" where
  "find_loop d sz val i =
     (if i < sz then (if rd_int d i = val then i else find_loop d sz val (i + 1)) else i)"
  by pat_completeness auto
termination
  by (relation "measure (\<lambda>(d, sz, val, i). nat (sz - i))") auto

declare find_loop.simps [simp del]

definition DeleteSparse :: "Node \<Rightarrow> int \<Rightarrow> int \<times> Node" where
  "DeleteSparse n val =
     (let i = find_loop (data_sparse n) (node_size n) val 0 in
      if i = node_size n then (-1, n)
      else (0, n\<lparr> data_sparse :=
                    for_range i (node_size n - 1) (\<lambda>j d. wr_int d j (rd_int d (j + 1)))
                      (data_sparse n),
                  node_size := node_size n - 1 \<rparr>))"

definition Node_Delete :: "Node \<Rightarrow> int \<Rightarrow> int \<times> Node" where
  "Node_Delete n val = (if node_type n = Dense then DeleteDense n val else DeleteSparse n val)"


subsection \<open>Keys and the keyed store\<close>

text \<open>
  \<open>ReverseEndian\<close> writes the input bytes in reverse order into \<open>out\<close> and then adds
  \<open>0x80\<close> to \<open>out[0]\<close> in \<open>unsigned char\<close> arithmetic. With \<open>len = 0\<close> the last
  statement writes outside the buffer; the model leaves the empty buffer as it is.
\<close>

definition ReverseEndian :: "byte list \<Rightarrow> byte list" where
  "ReverseEndian inp =
     (let len = length inp;
          out = fold (\<lambda>i out. out[i := inp ! (len - i - 1)]) [0..<len] (replicate len 0)
      in if len = 0 then out else out[0 := out ! 0 + 0x80])"

text \<open>
  Modelled from the spec: the keyed store (\<open>threadskv\<close>, not among the sources). The
  spec asks for \<open>find(key)\<close>, \<open>insert_unique(key, pointer)\<close> on an absent key and an
  ordered cursor \<open>iterate_from(key)\<close> that yields the pairs in ascending key order. Keys
  are compared as \<open>keycmp\<close> does: bytewise as unsigned values, a proper prefix first.
  The store holds the \<open>Node\<close> each stored pointer refers to; every pointer is stored
  under one key only, so a mutation through the pointer is an update of that entry.
\<close>

fun keycmp :: "byte list \<Rightarrow> byte list \<Rightarrow> int" where
  "keycmp [] [] = 0"
| "keycmp [] (y # ys) = -1"
| "keycmp (x # xs) [] = 1"
| "keycmp (x # xs) (y # ys) = (if x < y then -1 else if y < x then 1 else keycmp xs ys)"

type_synonym BtMgr = "(byte list \<times> Node) list"

definition bt_findkey :: "BtMgr \<Rightarrow> byte list \<Rightarrow> Node option" where
  "bt_findkey bt key = map_of bt key"

fun bt_insertkey :: "BtMgr \<Rightarrow> byte list \<Rightarrow> Node \<Rightarrow> BtMgr" where
  "bt_insertkey [] key p = [(key, p)]"
| "bt_insertkey ((k, q) # bt) key p =
     (if keycmp key k < 0 then (key, p) # (k, q) # bt
      else if keycmp key k = 0 then (k, q) # bt
      else (k, q) # bt_insertkey bt key p)"

definition bt_startkey :: "BtMgr \<Rightarrow> byte list \<Rightarrow> BtMgr" where
  "bt_startkey bt key = dropWhile (\<lambda>(k, p). keycmp k key < 0) bt"

text \<open>The effect of a member call through the stored pointer \<open>p_node\<close>.\<close>

definition bt_setnode :: "BtMgr \<Rightarrow> byte list \<Rightarrow> Node \<Rightarrow> BtMgr" where
  "bt_setnode bt key p = map (\<lambda>(k, q). if k = key then (k, p) else (k, q)) bt"

subsection \<open>Splitting tag strings\<close>

text \<open>
  \<open>strtok_r(key_s, kDelim_, &p)\<close> in a loop yields the maximal runs of bytes of the C
  string \<open>key_s\<close> that contain no byte of the delimiter string; the C string ends at
  its first zero byte.
\<close>

fun tokens :: "byte list \<Rightarrow> byte list \<Rightarrow> byte list \<Rightarrow> byte list list" where
  "tokens delim cur [] = (if cur = [] then [] else [cur])"
| "tokens delim cur (c # cs) =
     (if c \<in> set delim
      then (if cur = [] then tokens delim [] cs else cur # tokens delim [] cs)
      else tokens delim (cur @ [c]) cs)"

definition strtok_all :: "byte list \<Rightarrow> byte list \<Rightarrow> byte list list" where
  "strtok_all key delim = tokens delim [] (takeWhile (\<lambda>c. c \<noteq> 0) key)"

text \<open>
  Modelled from the spec: \<open>utils::split\<close> of \<open>utils.h\<close>, which is not among the
  sources. The spec splits the bytes on the configured delimiter, each non-empty token
  being one key.
\<close>

definition split :: "byte list \<Rightarrow> byte list \<Rightarrow> byte list list" where
  "split str delim = tokens delim [] str"

subsection \<open>The result bitmap\<close>

text \<open>
  Modelled from the spec: \<open>RangeQueryResult\<close> of \<open>field_range_index.h\<close>, which is not
  among the sources. The spec gives the fields \<open>min_aligned\<close>, \<open>max_aligned\<close>, the
  bitmap and \<open>doc_num\<close>, and the operations \<open>SetRange\<close>, \<open>Resize\<close> (a zeroed bitmap
  of \<open>Size\<close> bits, rounded to whole words), \<open>Ref\<close>, \<open>Size = max_aligned - min_aligned
  + 1\<close> and \<open>SetDocNum\<close>. A result that no search has written has no bitmap.
\<close>

record RangeQueryResult =
  r_min_aligned :: int
  r_max_aligned :: int
  r_bitmap :: "bm_word list"
  r_doc_num :: int

definition RangeQueryResult_new :: RangeQueryResult where
  "RangeQueryResult_new =
     \<lparr> r_min_aligned = 0, r_max_aligned = -1, r_bitmap = [], r_doc_num = 0 \<rparr>"

definition SetRange :: "RangeQueryResult \<Rightarrow> int \<Rightarrow> int \<Rightarrow> RangeQueryResult" where
  "SetRange r mn mx = r\<lparr> r_min_aligned := mn, r_max_aligned := mx \<rparr>"

definition Size :: "RangeQueryResult \<Rightarrow> int" where
  "Size r = r_max_aligned r - r_min_aligned r + 1"

definition Resize :: "RangeQueryResult \<Rightarrow> RangeQueryResult" where
  "Resize r = r\<lparr> r_bitmap := bitmap_create (Size r) \<rparr>"

definition SetDocNum :: "RangeQueryResult \<Rightarrow> int \<Rightarrow> RangeQueryResult" where
  "SetDocNum r n = r\<lparr> r_doc_num := n \<rparr>"

subsection \<open>The per-field index\<close>

record FieldRangeIndex =
  main_mgr :: BtMgr
  is_numeric :: bool
  kDelim :: "byte list"

text \<open>The lambdas \<open>InsertToBt\<close> and \<open>DeleteFromBt\<close>.\<close>

definition InsertToBt :: "int \<Rightarrow> byte list \<Rightarrow> BtMgr \<Rightarrow> BtMgr" where
  "InsertToBt val key_to_add bt =
     (case bt_findkey bt key_to_add of
        None \<Rightarrow>
          bt_setnode (bt_insertkey bt key_to_add Node_new) key_to_add
            (snd (Node_Add Node_new val))
      | Some p_node \<Rightarrow> bt_setnode bt key_to_add (snd (Node_Add p_node val)))"

definition DeleteFromBt :: "int \<Rightarrow> byte list \<Rightarrow> BtMgr \<Rightarrow> BtMgr" where
  "DeleteFromBt val key_to_add bt =
     (case bt_findkey bt key_to_add of
        None \<Rightarrow> bt
      | Some p_node \<Rightarrow> bt_setnode bt key_to_add (snd (Node_Delete p_node val)))"

definition FieldRangeIndex_Add ::
  "FieldRangeIndex \<Rightarrow> byte list \<Rightarrow> int \<Rightarrow> int \<times> FieldRangeIndex" where
  "FieldRangeIndex_Add idx key val =
     (if is_numeric idx
      then (0, idx\<lparr> main_mgr := InsertToBt val (ReverseEndian key) (main_mgr idx) \<rparr>)
      else (0, idx\<lparr> main_mgr :=
                       fold (InsertToBt val) (strtok_all key (kDelim idx)) (main_mgr idx) \<rparr>))"

definition FieldRangeIndex_Delete ::
  "FieldRangeIndex \<Rightarrow> byte list \<Rightarrow> int \<Rightarrow> int \<times> FieldRangeIndex" where
  "FieldRangeIndex_Delete idx key val =
     (if is_numeric idx
      then (0, idx\<lparr> main_mgr := DeleteFromBt val (ReverseEndian key) (main_mgr idx) \<rparr>)
      else (0, idx\<lparr> main_mgr :=
                       fold (DeleteFromBt val) (strtok_all key (kDelim idx)) (main_mgr idx) \<rparr>))"

text \<open>
  The cursor loop of the numeric \<open>Search\<close>: it stops at the first key above \<open>key_u\<close>
  and folds each node into \<open>lists\<close> (here \<open>plists\<close>), \<open>min_doc\<close>, \<open>min_aligned\<close>, \<open>max_doc\<close> and
  \<open>max_aligned\<close>.
\<close>

type_synonym scan_state = "Node list \<times> int \<times> int \<times> int \<times> int"

fun scan_loop :: "BtMgr \<Rightarrow> byte list \<Rightarrow> scan_state \<Rightarrow> scan_state" where
  "scan_loop [] key_u acc = acc"
| "scan_loop ((k, p_node) # cursor) key_u (plists, min_doc, min_aligned, max_doc, max_aligned) =
     (if keycmp k key_u > 0 then (plists, min_doc, min_aligned, max_doc, max_aligned)
      else scan_loop cursor key_u
             (plists @ [p_node], min min_doc (node_min p_node),
              min min_aligned (node_min_aligned p_node), max max_doc (node_max p_node),
              max max_aligned (node_max_aligned p_node)))"

text \<open>\<open>op_data_dst[j + offset] |= op_data_ori[j]\<close> for \<open>j < n\<close>.\<close>

definition or_words :: "int \<Rightarrow> int \<Rightarrow> bm_word list \<Rightarrow> bm_word list \<Rightarrow> bm_word list" where
  "or_words n offset ori dst =
     for_loop n (\<lambda>j d. wr_word d (j + offset) (rd_word d (j + offset) OR rd_word ori j)) dst"

text \<open>\<open>bitmap::set(bitmap, data[j] - base)\<close> for \<open>j < size\<close>.\<close>

definition set_sparse :: "int \<Rightarrow> int \<Rightarrow> int list \<Rightarrow> bm_word list \<Rightarrow> bm_word list" where
  "set_sparse sz base data bitmap =
     for_loop sz (\<lambda>j b. bitmap_set b (rd_int data j - base)) bitmap"

text \<open>One round of the assembling loop of the numeric \<open>Search\<close>.\<close>

definition merge_numeric ::
  "int \<Rightarrow> int \<Rightarrow> int \<Rightarrow> int \<Rightarrow> Node \<Rightarrow> bm_word list \<times> int \<Rightarrow> bm_word list \<times> int" where
  "merge_numeric min_doc max_doc min_aligned max_aligned list st =
     (let (bitmap, total) = st in
      if node_type list = Dense then
        (let mn = node_min_aligned list; mx = node_max_aligned list in
         if mn < min_aligned \<or> mx > max_aligned then (bitmap, total)
         else (or_words (cdiv (mx - mn + 1) op_len) (cdiv (mn - min_aligned) op_len)
                 (data_dense list) bitmap,
               total + node_size list))
      else
        (let mn = node_min list; mx = node_max list in
         if mn < min_doc \<or> mx > max_doc then (bitmap, total)
         else (set_sparse (node_size list) min_aligned (data_sparse list) bitmap,
               total + node_size list)))"

text \<open>One round of the assembling loop of the tag \<open>Search\<close>; \<open>None\<close> is a null entry.\<close>

definition merge_tag ::
  "int \<Rightarrow> Node option \<Rightarrow> bm_word list \<times> int \<Rightarrow> bm_word list \<times> int" where
  "merge_tag min_doc entry st =
     (let (bitmap, total) = st in
      case entry of
        None \<Rightarrow> (bitmap, total)
      | Some p_node \<Rightarrow>
          (let min_aligned = node_min_aligned p_node;
               max_aligned = node_max_aligned p_node
           in if node_type p_node = Dense
              then (or_words (cdiv (max_aligned - min_aligned + 1) op_len)
                      (cdiv (min_aligned - min_doc) op_len) (data_dense p_node) bitmap,
                    total + node_size p_node)
              else (set_sparse (node_size p_node) min_aligned (data_sparse p_node) bitmap,
                    total + node_size p_node)))"

definition Search_tags ::
  "FieldRangeIndex \<Rightarrow> byte list \<Rightarrow> RangeQueryResult \<Rightarrow> int \<times> RangeQueryResult" where
  "Search_tags idx tags result =
     (let items = split tags (kDelim idx);
          nodes = map (\<lambda>item. bt_findkey (main_mgr idx) item) items;
          (min_doc, max_doc) =
            fold (\<lambda>entry (mn, mx).
                    case entry of
                      None \<Rightarrow> (mn, mx)
                    | Some p \<Rightarrow>
                        if node_size p \<le> 0 then (mn, mx)
                        else (min mn (node_min_aligned p), max mx (node_max_aligned p)))
                 nodes (INT_MAX, 0)
      in if max_doc - min_doc + 1 \<le> 0 then (0, result)
         else
           (let result = Resize (SetRange result min_doc max_doc);
                (bitmap, total) = fold (merge_tag min_doc) nodes (r_bitmap result, 0)
            in (total, SetDocNum (result\<lparr> r_bitmap := bitmap \<rparr>) total)))"

definition Search ::
  "FieldRangeIndex \<Rightarrow> byte list \<Rightarrow> byte list \<Rightarrow> RangeQueryResult \<Rightarrow> int \<times> RangeQueryResult" where
  "Search idx lower upper result =
     (if \<not> is_numeric idx then Search_tags idx lower result
      else
        (let key_l = ReverseEndian lower;
             key_u = ReverseEndian upper;
             (plists, min_doc, min_aligned, max_doc, max_aligned) =
               scan_loop (bt_startkey (main_mgr idx) key_l) key_u
                 ([], INT_MAX, INT_MAX, 0, 0)
         in if max_doc - min_doc + 1 \<le> 0 then (0, result)
            else
              (let result = Resize (SetRange result min_aligned max_aligned);
                   (bitmap, total) =
                     fold (merge_numeric min_doc max_doc min_aligned max_aligned) plists
                       (r_bitmap result, 0)
               in (max_doc - min_doc + 1, SetDocNum (result\<lparr> r_bitmap := bitmap \<rparr>) total))))"


subsection \<open>The coordinator\<close>

datatype OperateType = ADD | DELETE

record FieldOperate =
  op_type :: OperateType
  doc_id :: int
  field_id :: int

record FilterInfo =
  field :: int
  lower_value :: "byte list"
  upper_value :: "byte list"
  is_union :: int

text \<open>
  \<open>fields_v\<close> is the vector \<open>fields_\<close> (\<open>None\<close> is a null slot) and
  \<open>field_operate_q\<close> the mutation queue. \<open>fields_[i]\<close> is
  \<open>std::vector::operator[]\<close>, which checks no bounds: at an index outside the vector
  the read has undefined behaviour, and the model stops there with \<open>OutOfBounds\<close>.
  \<open>AssertionFailed\<close> is the \<open>assert\<close> of \<open>Intersect\<close> and \<open>NullPointer\<close> a call
  through a null index.
\<close>

datatype failure = AssertionFailed | NullPointer | OutOfBounds

record MultiFieldsRangeIndex =
  fields_v :: "FieldRangeIndex option list"
  field_operate_q :: "FieldOperate list"

definition fields_at ::
  "MultiFieldsRangeIndex \<Rightarrow> int \<Rightarrow> failure + FieldRangeIndex option" where
  "fields_at m i =
     (if 0 \<le> i \<and> i < int (length (fields_v m)) then Inr (fields_v m ! nat i)
      else Inl OutOfBounds)"

text \<open>
  Modelled from the spec: \<open>enqueue\<close> of the mutation queue, whose class is not among
  the sources. The queue is an unbounded FIFO, so the element is appended and the call
  reports success.
\<close>

definition enqueue :: "FieldOperate list \<Rightarrow> FieldOperate \<Rightarrow> bool \<times> FieldOperate list" where
  "enqueue q x = (True, q @ [x])"

definition MultiFieldsRangeIndex_Add ::
  "MultiFieldsRangeIndex \<Rightarrow> int \<Rightarrow> int \<Rightarrow> failure + int \<times> MultiFieldsRangeIndex" where
  "MultiFieldsRangeIndex_Add m docid fld =
     (case fields_at m fld of
        Inl e \<Rightarrow> Inl e
      | Inr None \<Rightarrow> Inr (0, m)
      | Inr (Some index) \<Rightarrow>
          (let (ret, q) = enqueue (field_operate_q m)
                            \<lparr> op_type = ADD, doc_id = docid, field_id = fld \<rparr>
           in if \<not> ret then Inr (-1, m\<lparr> field_operate_q := q \<rparr>)
              else Inr (0, m\<lparr> field_operate_q := q \<rparr>)))"

definition MultiFieldsRangeIndex_Delete ::
  "MultiFieldsRangeIndex \<Rightarrow> int \<Rightarrow> int \<Rightarrow> failure + int \<times> MultiFieldsRangeIndex" where
  "MultiFieldsRangeIndex_Delete m docid fld =
     (case fields_at m fld of
        Inl e \<Rightarrow> Inl e
      | Inr None \<Rightarrow> Inr (0, m)
      | Inr (Some index) \<Rightarrow>
          (let (ret, q) = enqueue (field_operate_q m)
                            \<lparr> op_type = DELETE, doc_id = docid, field_id = fld \<rparr>
           in if \<not> ret then Inr (-1, m\<lparr> field_operate_q := q \<rparr>)
              else Inr (0, m\<lparr> field_operate_q := q \<rparr>)))"

text \<open>
  \<open>results[i]\<close> of the array handed to \<open>Intersect\<close>; an index outside the array
  reads a result that no search has written.
\<close>

definition results_at :: "RangeQueryResult list \<Rightarrow> int \<Rightarrow> RangeQueryResult" where
  "results_at results i =
     (if 0 \<le> i \<and> i < int (length results) then results ! nat i else RangeQueryResult_new)"

text \<open>
  The three word loops of \<open>Intersect\<close>: \<open>dst[j] = ori[j]\<close>,
  \<open>dst[k] &= ori[k + offset]\<close> and \<open>dst[k + offset] &= ori[k]\<close>.
\<close>

definition and_words_from ::
  "int \<Rightarrow> int \<Rightarrow> bm_word list \<Rightarrow> bm_word list \<Rightarrow> bm_word list" where
  "and_words_from n offset ori dst =
     for_loop n (\<lambda>k d. wr_word d k (rd_word d k AND rd_word ori (k + offset))) dst"

definition and_words_at ::
  "int \<Rightarrow> int \<Rightarrow> bm_word list \<Rightarrow> bm_word list \<Rightarrow> bm_word list" where
  "and_words_at n offset ori dst =
     for_loop n (\<lambda>k d. wr_word d (k + offset) (rd_word d (k + offset) AND rd_word ori k)) dst"

text \<open>One round of the second loop of \<open>Intersect\<close>, for the index \<open>i\<close>.\<close>

definition intersect_step ::
  "RangeQueryResult list \<Rightarrow> int \<Rightarrow> int \<Rightarrow> int \<Rightarrow> int \<Rightarrow> bm_word list \<Rightarrow> bm_word list" where
  "intersect_step results shortest_idx min_doc max_doc i dst =
     (if i = shortest_idx then dst
      else
        (let ori = r_bitmap (results_at results i);
             mn = r_min_aligned (results_at results i);
             mx = r_max_aligned (results_at results i)
         in if mn < min_doc then
              (let offset = cdiv (min_doc - mn) op_len in
               if mx > max_doc
               then and_words_from (cdiv (max_doc - min_doc + 1) op_len) offset ori dst
               else and_words_from (cdiv (mx - min_doc + 1) op_len) offset ori dst)
            else
              (let offset = cdiv (mn - min_doc) op_len in
               if mx > max_doc
               then and_words_at (cdiv (max_doc - min_doc + 1) op_len) offset ori dst
               else and_words_at (cdiv (mx - min_doc + 1) op_len) offset ori dst)))"

definition Intersect ::
  "RangeQueryResult list \<Rightarrow> int \<Rightarrow> int \<Rightarrow> RangeQueryResult
     \<Rightarrow> failure + int \<times> RangeQueryResult" where
  "Intersect results j shortest_idx out =
     (if j < 0 then Inl AssertionFailed
      else
        (let min_doc = r_min_aligned (results_at results 0);
             max_doc = r_max_aligned (results_at results 0);
             total = Size (results_at results 0);
             (min_doc, max_doc) =
               for_range 1 (j + 1)
                 (\<lambda>i (mn, mx).
                    (if r_min_aligned (results_at results i) > mn
                     then r_min_aligned (results_at results i) else mn,
                     if r_max_aligned (results_at results i) < mx
                     then r_max_aligned (results_at results i) else mx))
                 (min_doc, max_doc)
         in if max_doc - min_doc + 1 \<le> 0 then Inr (0, out)
            else
              (let out = SetDocNum (Resize (SetRange out min_doc max_doc)) total;
                   dst = copy_words (cdiv (max_doc - min_doc + 1) op_len) 0
                           (r_bitmap (results_at results shortest_idx)) (r_bitmap out);
                   dst = for_loop j (intersect_step results shortest_idx min_doc max_doc) dst
               in Inr (total, out\<lparr> r_bitmap := dst \<rparr>))))"

text \<open>
  The first loop of \<open>MultiFieldsRangeIndex::Search\<close>; \<open>Inr None\<close> is its
  \<open>return -1\<close>. The slot is read before the sign of the field id is tested, as in the
  source.
\<close>

fun preprocess ::
  "MultiFieldsRangeIndex \<Rightarrow> FilterInfo list \<Rightarrow> FilterInfo list
     \<Rightarrow> failure + FilterInfo list option" where
  "preprocess m [] filters = Inr (Some filters)"
| "preprocess m (flt # rest) filters =
     (case fields_at m (field flt) of
        Inl e \<Rightarrow> Inl e
      | Inr None \<Rightarrow> Inr None
      | Inr (Some index) \<Rightarrow>
          if field flt < 0 then Inr None
          else if \<not> is_numeric index \<and> is_union flt = 0
          then preprocess m rest
                 (filters @ map (\<lambda>item. flt\<lparr> lower_value := item \<rparr>)
                              (split (lower_value flt) (kDelim index)))
          else preprocess m rest (filters @ [flt]))"

text \<open>
  The loop over the filters when there are several; \<open>Inr None\<close> is its \<open>return 0\<close>.
  The state is \<open>results\<close>, \<open>valuable_result\<close>, \<open>shortest_idx\<close> and \<open>shortest\<close>.
\<close>

type_synonym search_state = "RangeQueryResult list \<times> int \<times> int \<times> int"

fun search_loop ::
  "MultiFieldsRangeIndex \<Rightarrow> FilterInfo list \<Rightarrow> search_state
     \<Rightarrow> failure + search_state option" where
  "search_loop m [] st = Inr (Some st)"
| "search_loop m (flt # rest) (results, valuable_result, shortest_idx, shortest) =
     (case fields_at m (field flt) of
        Inl e \<Rightarrow> Inl e
      | Inr None \<Rightarrow> search_loop m rest (results, valuable_result, shortest_idx, shortest)
      | Inr (Some index) \<Rightarrow>
          if field flt < 0
          then search_loop m rest (results, valuable_result, shortest_idx, shortest)
          else
            (let (retval, r) = Search index (lower_value flt) (upper_value flt)
                                 (results_at results (valuable_result + 1));
                 results = (if 0 \<le> valuable_result + 1
                               \<and> valuable_result + 1 < int (length results)
                            then results[nat (valuable_result + 1) := r] else results)
             in if retval < 0
                then search_loop m rest (results, valuable_result, shortest_idx, shortest)
                else if retval = 0 then Inr None
                else if shortest > retval
                then search_loop m rest (results, valuable_result + 1, valuable_result + 1, retval)
                else search_loop m rest (results, valuable_result + 1, shortest_idx, shortest)))"

text \<open>
  \<open>MultiFieldsRangeIndex::Search\<close>; \<open>out\<close> is the list of results held by the
  \<open>MultiRangeQueryResults\<close>, which \<open>Clear\<close> empties and \<open>Add\<close> extends.
\<close>

definition MultiFieldsRangeIndex_Search ::
  "MultiFieldsRangeIndex \<Rightarrow> FilterInfo list \<Rightarrow> RangeQueryResult list
     \<Rightarrow> failure + int \<times> RangeQueryResult list" where
  "MultiFieldsRangeIndex_Search m origin_filters out =
     (let out = [] in
      case preprocess m origin_filters [] of
        Inl e \<Rightarrow> Inl e
      | Inr None \<Rightarrow> Inr (-1, out)
      | Inr (Some filters) \<Rightarrow>
          if length filters = 1 then
            (case fields_at m (field (filters ! 0)) of
               Inl e \<Rightarrow> Inl e
             | Inr None \<Rightarrow> Inl NullPointer
             | Inr (Some index) \<Rightarrow>
                 (let (retval, result) =
                        Search index (lower_value (filters ! 0)) (upper_value (filters ! 0))
                          RangeQueryResult_new
                  in if retval > 0 then Inr (retval, out @ [result]) else Inr (retval, out)))
          else
            (case search_loop m filters
                    (replicate (length filters) RangeQueryResult_new, -1, -1, INT_MAX) of
               Inl e \<Rightarrow> Inl e
             | Inr None \<Rightarrow> Inr (0, out)
             | Inr (Some (results, valuable_result, shortest_idx, shortest)) \<Rightarrow>
                 if valuable_result < 0 then Inr (-1, out)
                 else
                   (case Intersect results valuable_result shortest_idx RangeQueryResult_new of
                      Inl e \<Rightarrow> Inl e
                    | Inr (count, tmp) \<Rightarrow>
                        if count > 0 then Inr (count, out @ [tmp]) else Inr (count, out))))"

subsection \<open>The documents of a bitmap\<close>

text \<open>
  The document ids a bitmap with base \<open>base\<close> stands for, as an executable list over
  the bit positions of the buffer and as a set.
\<close>

definition bitmap_docs :: "int \<Rightarrow> bm_word list \<Rightarrow> int list" where
  "bitmap_docs base buf =
     map (\<lambda>i. base + i) (filter (bitmap_test buf) (map int [0..<64 * length buf]))"

definition result_docs :: "RangeQueryResult \<Rightarrow> int set" where
  "result_docs r = set (bitmap_docs (r_min_aligned r) (r_bitmap r))"


subsection \<open>Abstract contents and invariants\<close>

text \<open>
  The set of document ids a node stands for: the set bits of a Dense node, shifted by
  \<open>min_aligned_\<close>, and the first \<open>size_\<close> slots of a Sparse node.
\<close>

definition node_docs :: "Node \<Rightarrow> int set" where
  "node_docs n =
     (case node_type n of
        Dense \<Rightarrow> set (bitmap_docs (node_min_aligned n) (data_dense n))
      | Sparse \<Rightarrow> set (take (nat (node_size n)) (data_sparse n)))"

text \<open>
  The invariant that \<open>Add\<close> of a new doc id and \<open>Delete\<close> of a stored doc id keep:
  the aligned bounds of the data model, and for each representation the agreement of
  \<open>size_\<close> with the contents. The constructor does not establish it (its
  \<open>min_aligned_\<close> is \<open>INT_MAX\<close>); the first \<open>Add\<close> does.
\<close>

definition node_inv :: "Node \<Rightarrow> bool" where
  "node_inv n \<longleftrightarrow>
     0 \<le> node_min_aligned n \<and> node_min_aligned n mod 64 = 0
     \<and> (node_max_aligned n + 1) mod 64 = 0
     \<and> node_min_aligned n \<le> node_min n \<and> node_min n \<le> node_max n
     \<and> node_max n \<le> node_max_aligned n \<and> node_max_aligned n \<le> INT_MAX
     \<and> (case node_type n of
           Sparse \<Rightarrow>
             0 \<le> node_size n \<and> node_size n \<le> node_capacity n
             \<and> int (length (data_sparse n)) = node_capacity n
             \<and> distinct (take (nat (node_size n)) (data_sparse n))
             \<and> (\<forall>x \<in> set (take (nat (node_size n)) (data_sparse n)).
                   node_min_aligned n \<le> x \<and> x \<le> node_max_aligned n)
         | Dense \<Rightarrow>
             64 * int (length (data_dense n)) = node_max_aligned n - node_min_aligned n + 1
             \<and> node_size n = int (card (node_docs n)))"

text \<open>
  The part of the invariant that the numeric \<open>Search\<close> relies on: the bounds, the
  length of the Dense buffer, and the filled slots of the Sparse buffer. It does not
  mention \<open>size_\<close> of a Dense node.
\<close>

definition node_shape :: "Node \<Rightarrow> bool" where
  "node_shape n \<longleftrightarrow>
     0 \<le> node_min_aligned n \<and> node_min_aligned n mod 64 = 0
     \<and> (node_max_aligned n + 1) mod 64 = 0
     \<and> node_min_aligned n \<le> node_min n \<and> node_min n \<le> node_max n
     \<and> node_max n \<le> node_max_aligned n \<and> node_max_aligned n \<le> INT_MAX
     \<and> (case node_type n of
           Sparse \<Rightarrow>
             0 \<le> node_size n \<and> node_size n \<le> int (length (data_sparse n))
             \<and> (\<forall>x \<in> set (take (nat (node_size n)) (data_sparse n)).
                   node_min_aligned n \<le> x \<and> x \<le> node_max_aligned n)
         | Dense \<Rightarrow>
             64 * int (length (data_dense n)) = node_max_aligned n - node_min_aligned n + 1)"

text \<open>The bit positions below \<open>k\<close> that are set, in ascending order.\<close>

definition bits_below :: "bm_word list \<Rightarrow> nat \<Rightarrow> int list" where
  "bits_below buf k = filter (bitmap_test buf) (map int [0..<k])"

text \<open>The nodes the cursor loop of the numeric \<open>Search\<close> collects.\<close>

definition range_nodes :: "BtMgr \<Rightarrow> byte list \<Rightarrow> byte list \<Rightarrow> Node list" where
  "range_nodes bt key_l key_u =
     map snd (takeWhile (\<lambda>(k, p). \<not> keycmp k key_u > 0) (bt_startkey bt key_l))"

text \<open>
  The keyed store keeps its keys in strictly ascending order, and every stored node
  satisfies the node invariant.
\<close>

definition keys_sorted :: "BtMgr \<Rightarrow> bool" where
  "keys_sorted bt = sorted_wrt (\<lambda>a b. keycmp (fst a) (fst b) < 0) bt"

definition index_inv :: "FieldRangeIndex \<Rightarrow> bool" where
  "index_inv idx \<longleftrightarrow>
     keys_sorted (main_mgr idx) \<and> (\<forall>(k, p) \<in> set (main_mgr idx). node_inv p)"

text \<open>\<open>doc_id\<close> is not among the doc ids stored under \<open>key\<close> of a numeric field.\<close>

definition not_inserted :: "FieldRangeIndex \<Rightarrow> byte list \<Rightarrow> int \<Rightarrow> bool" where
  "not_inserted idx key v =
     (case bt_findkey (main_mgr idx) (ReverseEndian key) of
        None \<Rightarrow> True
      | Some p \<Rightarrow> v \<notin> node_docs p)"

text \<open>\<open>doc_id\<close> is among the doc ids stored under \<open>key\<close> of a numeric field.\<close>

definition stored_under :: "FieldRangeIndex \<Rightarrow> byte list \<Rightarrow> int \<Rightarrow> bool" where
  "stored_under idx key v =
     (case bt_findkey (main_mgr idx) (ReverseEndian key) of
        None \<Rightarrow> False
      | Some p \<Rightarrow> v \<in> node_docs p)"

text \<open>
  Sequences of \<open>Add\<close> and \<open>Delete\<close> on one node. \<open>absent_in_span n v\<close> says that
  \<open>n\<close> is Dense and \<open>v\<close> lies in its span with its bit clear; a sequence satisfies
  \<open>no_absent_dense_delete\<close> when no \<open>Delete\<close> in it meets that situation.
  \<open>bitmap_count\<close> is the number of set bits of a buffer, and \<open>size_inv\<close> says
  that \<open>size_\<close> is not negative and, on a Dense node, not below that number.
\<close>

datatype node_op = OpAdd int | OpDelete int

fun apply_op :: "Node \<Rightarrow> node_op \<Rightarrow> Node" where
  "apply_op n (OpAdd v) = snd (Node_Add n v)"
| "apply_op n (OpDelete v) = snd (Node_Delete n v)"

definition run_ops :: "Node \<Rightarrow> node_op list \<Rightarrow> Node" where
  "run_ops n ops = foldl apply_op n ops"

definition absent_in_span :: "Node \<Rightarrow> int \<Rightarrow> bool" where
  "absent_in_span n v \<longleftrightarrow>
     node_type n = Dense \<and> node_min_aligned n \<le> v \<and> v \<le> node_max_aligned n
     \<and> \<not> bitmap_test (data_dense n) (v - node_min_aligned n)"

fun no_absent_dense_delete :: "Node \<Rightarrow> node_op list \<Rightarrow> bool" where
  "no_absent_dense_delete n [] = True"
| "no_absent_dense_delete n (OpAdd v # ops) = no_absent_dense_delete (snd (Node_Add n v)) ops"
| "no_absent_dense_delete n (OpDelete v # ops) =
     (\<not> absent_in_span n v \<and> no_absent_dense_delete (snd (Node_Delete n v)) ops)"

definition bitmap_count :: "bm_word list \<Rightarrow> nat" where
  "bitmap_count buf = length (bitmap_docs 0 buf)"

definition size_inv :: "Node \<Rightarrow> bool" where
  "size_inv n \<longleftrightarrow>
     0 \<le> node_size n \<and> (node_type n = Dense \<longrightarrow> int (bitmap_count (data_dense n)) \<le> node_size n)"

subsection \<open>Concrete indexes used below\<close>

text \<open>
  The coordinator creates every field index with the delimiter \<open>"\001"\<close>. A numeric
  key is given by the four bytes of the \<open>int\<close> as the profile stores them, lowest byte
  first: \<open>42\<close> is \<open>2A 00 00 00\<close> and \<open>50\<close> is \<open>32 00 00 00\<close>.
\<close>

definition numeric_index :: FieldRangeIndex where
  "numeric_index = \<lparr> main_mgr = [], is_numeric = True, kDelim = [1] \<rparr>"

definition tag_index :: FieldRangeIndex where
  "tag_index = \<lparr> main_mgr = [], is_numeric = False, kDelim = [1] \<rparr>"

definition key42 :: "byte list" where
  "key42 = [0x2A, 0, 0, 0]"

definition key50 :: "byte list" where
  "key50 = [0x32, 0, 0, 0]"

text \<open>Doc ids 10, 11 and 12 under key 42 and doc id 1000 under key 50.\<close>

definition scenario1 :: FieldRangeIndex where
  "scenario1 =
     snd (FieldRangeIndex_Add (snd (FieldRangeIndex_Add (snd (FieldRangeIndex_Add
       (snd (FieldRangeIndex_Add numeric_index key42 10)) key42 11)) key42 12)) key50 1000)"

text \<open>Doc id 5 under the tag \<open>a\<close> and doc id 100 under the tag \<open>b\<close>.\<close>

definition tag_scenario :: FieldRangeIndex where
  "tag_scenario =
     snd (FieldRangeIndex_Add (snd (FieldRangeIndex_Add tag_index [0x61] 5)) [0x62] 100)"

text \<open>
  Two numeric fields: field 0 holds doc id 5 and field 1 holds doc id 7, both under
  key 42; and one range filter \<open>[42, 42]\<close> on each field.
\<close>

definition field_with_5 :: FieldRangeIndex where
  "field_with_5 = snd (FieldRangeIndex_Add numeric_index key42 5)"

definition field_with_7 :: FieldRangeIndex where
  "field_with_7 = snd (FieldRangeIndex_Add numeric_index key42 7)"

definition two_fields :: MultiFieldsRangeIndex where
  "two_fields =
     \<lparr> fields_v = [Some field_with_5, Some field_with_7], field_operate_q = [] \<rparr>"

definition two_filters :: "FilterInfo list" where
  "two_filters =
     [\<lparr> field = 0, lower_value = key42, upper_value = key42, is_union = 0 \<rparr>,
      \<lparr> field = 1, lower_value = key42, upper_value = key42, is_union = 0 \<rparr>]"

text \<open>A coordinator with one unregistered field.\<close>

definition one_null_field :: MultiFieldsRangeIndex where
  "one_null_field =
     \<lparr> fields_v = [None], field_operate_q = [] \<rparr>"


text \<open>
  A node after \<open>Add\<close> of the doc ids \<open>0, \<dots>, 10000\<close> in this order, and the same
  node after one more \<open>Add(100001)\<close>: it is then Sparse with \<open>offset = 100001\<close> and
  \<open>size = 10002\<close>. The next \<open>Add(100002)\<close> finds \<open>density > 0.1\<close> and converts it
  to Dense.
\<close>

definition ascending_node :: Node where
  "ascending_node = run_ops Node_new (map OpAdd (map int [0..<10001]))"

definition sparse_reached :: Node where
  "sparse_reached = snd (Node_Add ascending_node 100001)"

definition dense_reached :: Node where
  "dense_reached = snd (Node_Add sparse_reached 100002)"

text \<open>
  The Dense node after one more \<open>Add(130000)\<close>, and then after \<open>Delete(50000)\<close>, a
  doc id that was never added.
\<close>

definition grown_node :: Node where
  "grown_node = snd (Node_Add dense_reached 130000)"

definition stale_node :: Node where
  "stale_node = snd (Node_Delete grown_node 50000)"

text \<open>
  The same history on a numeric field, all under key 42: \<open>FieldRangeIndex::Add\<close> of the
  doc ids \<open>0, \<dots>, 10000\<close>, \<open>100001\<close>, \<open>100002\<close> and \<open>130000\<close>, then
  \<open>FieldRangeIndex::Delete\<close> of the doc id \<open>50000\<close>.
\<close>

definition index_op :: "byte list \<Rightarrow> FieldRangeIndex \<Rightarrow> node_op \<Rightarrow> FieldRangeIndex" where
  "index_op key idx op =
     (case op of
        OpAdd v \<Rightarrow> snd (FieldRangeIndex_Add idx key v)
      | OpDelete v \<Rightarrow> snd (FieldRangeIndex_Delete idx key v))"

definition stale_ops :: "node_op list" where
  "stale_ops = map OpAdd (map int [0..<10001] @ [100001, 100002, 130000]) @ [OpDelete 50000]"

definition stale_index :: FieldRangeIndex where
  "stale_index = foldl (index_op key42) numeric_index stale_ops"

text \<open>
  Two results as the numeric \<open>Search\<close> produces them: one over \<open>[0, 127]\<close> with the
  doc ids 60 and 70, one over \<open>[64, 127]\<close> with the doc ids 70 and 100.
\<close>

definition result_60_70 :: RangeQueryResult where
  "result_60_70 =
     \<lparr> r_min_aligned = 0, r_max_aligned = 127,
       r_bitmap = bitmap_set (bitmap_set (bitmap_create 128) 60) 70, r_doc_num = 2 \<rparr>"

definition result_70_100 :: RangeQueryResult where
  "result_70_100 =
     \<lparr> r_min_aligned = 64, r_max_aligned = 127,
       r_bitmap = bitmap_set (bitmap_set (bitmap_create 64) 6) 36, r_doc_num = 2 \<rparr>"

section \<open>Basic facts\<close>

subsection \<open>Buffers and bitmaps\<close>

lemma length_wr_word [simp]: "length (wr_word buf i w) = length buf"
  by (simp add: wr_word_def)

lemma rd_wr_word:
  "rd_word (wr_word buf i w) k =
     (if k = i \<and> 0 \<le> i \<and> i < int (length buf) then w else rd_word buf k)"
  by (auto simp: rd_word_def wr_word_def nth_list_update nat_eq_iff)

lemma rd_word_outside: "\<not> (0 \<le> i \<and> i < int (length buf)) \<Longrightarrow> rd_word buf i = 0"
  by (auto simp: rd_word_def)

lemma bit_one_shifted: "bit ((2 :: bm_word) ^ m) n \<longleftrightarrow> n = m \<and> m < 64"
  by (auto simp: bit_exp_iff possible_bit_word)

lemma mod64_nat_eq: "nat (k mod 64) = nat (i mod 64) \<longleftrightarrow> k mod 64 = i mod (64::int)"
  by (simp add: nat_eq_iff)

lemma divmod64_eq: "k div 64 = i div 64 \<and> k mod 64 = i mod (64::int) \<longleftrightarrow> k = i"
  by (metis mult_div_mod_eq)

lemma length_bitmap_set [simp]: "length (bitmap_set buf i) = length buf"
  by (simp add: bitmap_set_def)

lemma length_bitmap_unset [simp]: "length (bitmap_unset buf i) = length buf"
  by (simp add: bitmap_unset_def)

lemma in_buf_iff:
  "0 \<le> i div 64 \<and> i div 64 < int n \<longleftrightarrow> 0 \<le> i \<and> i < 64 * int n" for i :: int
  by auto

lemma bitmap_test_set:
  "bitmap_test (bitmap_set buf i) k =
     (bitmap_test buf k \<or> (k = i \<and> 0 \<le> i \<and> i < 64 * int (length buf)))"
proof (cases "0 \<le> i \<and> i < 64 * int (length buf)")
  case False
  then have "bitmap_set buf i = buf"
    using in_buf_iff[of i "length buf"] by (auto simp: bitmap_set_def wr_word_def)
  with False show ?thesis by auto
next
  case True
  then have r: "0 \<le> i div 64 \<and> i div 64 < int (length buf)"
    using in_buf_iff[of i "length buf"] by simp
  have m: "nat (i mod 64) < 64" by simp
  show ?thesis
  proof (cases "k div 64 = i div 64")
    case False
    then have "k \<noteq> i" by auto
    with False show ?thesis
      by (simp add: bitmap_test_def bitmap_set_def rd_wr_word)
  next
    case same: True
    have "bitmap_test (bitmap_set buf i) k =
            (bit (rd_word buf (i div 64)) (nat (k mod 64)) \<or> nat (k mod 64) = nat (i mod 64))"
      using r same m
      by (simp add: bitmap_test_def bitmap_set_def rd_wr_word bit_or_iff bit_one_shifted)
    also have "\<dots> = (bitmap_test buf k \<or> k = i)"
      using same divmod64_eq[of k i] by (simp add: bitmap_test_def mod64_nat_eq)
    finally show ?thesis using True by simp
  qed
qed

lemma bitmap_test_unset:
  "bitmap_test (bitmap_unset buf i) k = (bitmap_test buf k \<and> k \<noteq> i)"
proof (cases "0 \<le> i \<and> i < 64 * int (length buf)")
  case False
  then have e: "bitmap_unset buf i = buf"
    using in_buf_iff[of i "length buf"] by (auto simp: bitmap_unset_def wr_word_def)
  have "\<not> bitmap_test buf i"
    using False in_buf_iff[of i "length buf"] by (simp add: bitmap_test_def rd_word_outside)
  with e show ?thesis by auto
next
  case True
  then have r: "0 \<le> i div 64 \<and> i div 64 < int (length buf)"
    using in_buf_iff[of i "length buf"] by simp
  have m: "nat (i mod 64) < 64" by simp
  show ?thesis
  proof (cases "k div 64 = i div 64")
    case False
    then have "k \<noteq> i" by auto
    with False show ?thesis
      by (simp add: bitmap_test_def bitmap_unset_def rd_wr_word)
  next
    case same: True
    have "bitmap_test (bitmap_unset buf i) k =
            (bit (rd_word buf (i div 64)) (nat (k mod 64)) \<and> nat (k mod 64) \<noteq> nat (i mod 64))"
    proof -
      have "nat (k mod 64) < 64" by simp
      then show ?thesis
        using r same m
        by (simp add: bitmap_test_def bitmap_unset_def rd_wr_word bit_and_iff bit_not_iff
              bit_one_shifted possible_bit_word)
    qed
    also have "\<dots> = (bitmap_test buf k \<and> k \<noteq> i)"
      using same divmod64_eq[of k i] by (simp add: bitmap_test_def mod64_nat_eq)
    finally show ?thesis .
  qed
qed

lemma bitmap_test_range: "bitmap_test buf k \<Longrightarrow> 0 \<le> k \<and> k < 64 * int (length buf)"
  using in_buf_iff[of k "length buf"]
  by (auto simp: bitmap_test_def rd_word_def split: if_splits)

lemma length_bitmap_create: "length (bitmap_create n) = nat ((n + 63) div 64)"
  by (simp add: bitmap_create_def)

lemma bitmap_test_create [simp]: "\<not> bitmap_test (bitmap_create n) k"
  by (auto simp: bitmap_test_def bitmap_create_def rd_word_def)

lemma bitmap_docs_iff: "d \<in> set (bitmap_docs base buf) \<longleftrightarrow> bitmap_test buf (d - base)"
proof
  assume "d \<in> set (bitmap_docs base buf)"
  then show "bitmap_test buf (d - base)" by (auto simp: bitmap_docs_def)
next
  assume t: "bitmap_test buf (d - base)"
  then have r: "0 \<le> d - base" "d - base < 64 * int (length buf)"
    using bitmap_test_range by blast+
  then have "d - base \<in> int ` {0..<64 * length buf}"
    by (intro image_eqI[where x = "nat (d - base)"]) auto
  with t have "d - base \<in> set (filter (bitmap_test buf) (map int [0..<64 * length buf]))"
    by simp
  then have "base + (d - base) \<in> set (bitmap_docs base buf)"
    unfolding bitmap_docs_def set_map by (rule imageI)
  then show "d \<in> set (bitmap_docs base buf)" by simp
qed

lemma result_docs_iff:
  "d \<in> result_docs r \<longleftrightarrow> bitmap_test (r_bitmap r) (d - r_min_aligned r)"
  by (simp add: result_docs_def bitmap_docs_iff)


section \<open>Loops over words and slots\<close>

lemma for_loop_0 [simp]: "n \<le> 0 \<Longrightarrow> for_loop n body s = s"
  by (simp add: for_loop_def)

lemma for_loop_Suc: "0 \<le> n \<Longrightarrow> for_loop (n + 1) body s = body n (for_loop n body s)"
  by (simp add: for_loop_def nat_add_distrib)

lemma for_loop_induct [consumes 1, case_names zero step]:
  assumes "0 \<le> (n::int)" and "P 0" and "\<And>m. 0 \<le> m \<Longrightarrow> m < n \<Longrightarrow> P m \<Longrightarrow> P (m + 1)"
  shows "P n"
proof -
  have "int k \<le> n \<Longrightarrow> P (int k)" for k
  proof (induction k)
    case 0 then show ?case using assms(2) by simp
  next
    case (Suc k)
    then have "P (int k + 1)" using assms(3)[of "int k"] by simp
    then show ?case by (simp add: add.commute)
  qed
  from this[of "nat n"] assms(1) show ?thesis by simp
qed

lemma length_for_loop_words [simp]:
  "length (for_loop n (\<lambda>j d. wr_word d (g j) (h j d)) dst) = length dst"
proof (cases "0 \<le> n")
  case True
  then show ?thesis
    by (induction n rule: for_loop_induct) (simp_all add: for_loop_Suc)
next
  case False then show ?thesis by simp
qed

lemma for_loop_words_rd:
  "rd_word (for_loop n (\<lambda>j d. wr_word d (j + off) (F j (rd_word d (j + off)))) dst) k =
     (if off \<le> k \<and> k < off + n \<and> 0 \<le> k \<and> k < int (length dst)
      then F (k - off) (rd_word dst k) else rd_word dst k)"
proof (cases "0 \<le> n")
  case False then show ?thesis by auto
next
  case True
  then show ?thesis
  proof (induction n rule: for_loop_induct)
    case zero
    then show ?case by auto
  next
    case (step m)
    show ?case
      unfolding for_loop_Suc[OF step(1)] rd_wr_word length_for_loop_words
      using step by auto
  qed
qed

lemma cdiv_nonneg: "0 \<le> a \<Longrightarrow> 0 < b \<Longrightarrow> cdiv a b = a div b"
  by (simp add: cdiv_def sgn_if)

lemma bitmap_test_shift:
  "bit (rd_word buf (i div 64 - s)) (nat (i mod 64)) = bitmap_test buf (i - 64 * s)"
proof -
  have "(i - 64 * s) div 64 = i div 64 - s" by simp
  moreover have "(i - 64 * s) mod 64 = i mod 64"
    by (metis mod_diff_right_eq mod_mult_self1_is_0 diff_zero)
  ultimately show ?thesis by (simp add: bitmap_test_def)
qed

lemma length_copy_words [simp]: "length (copy_words n shift ori dst) = length dst"
  by (simp add: copy_words_def)

lemma copy_words_test:
  assumes "0 \<le> shift" and "n = int (length ori)" and "shift + n \<le> int (length dst)"
    and "\<And>k. \<not> bitmap_test dst k"
  shows "bitmap_test (copy_words n shift ori dst) i = bitmap_test ori (i - 64 * shift)"
proof -
  have rd: "rd_word (copy_words n shift ori dst) k =
              (if shift \<le> k \<and> k < shift + n \<and> 0 \<le> k \<and> k < int (length dst)
               then rd_word ori (k - shift) else rd_word dst k)" for k
    unfolding copy_words_def
    using for_loop_words_rd [where F = "\<lambda>j w. rd_word ori j" and off = shift and n = n
        and dst = dst and k = k]
    by simp
  show ?thesis
  proof (cases "shift \<le> i div 64 \<and> i div 64 < shift + n")
    case True
    then have "rd_word (copy_words n shift ori dst) (i div 64) = rd_word ori (i div 64 - shift)"
      using assms unfolding rd by auto
    then show ?thesis
      by (simp add: bitmap_test_def[of "copy_words n shift ori dst"] bitmap_test_shift)
  next
    case False
    then have "rd_word (copy_words n shift ori dst) (i div 64) = rd_word dst (i div 64)"
      by (auto simp: rd)
    then have a: "bitmap_test (copy_words n shift ori dst) i = bitmap_test dst i"
      by (simp add: bitmap_test_def)
    have "\<not> (0 \<le> i div 64 - shift \<and> i div 64 - shift < int (length ori))"
      using False assms by auto
    then have "rd_word ori (i div 64 - shift) = 0" by (rule rd_word_outside)
    then have "\<not> bitmap_test ori (i - 64 * shift)"
      using bitmap_test_shift[of ori i shift] by simp
    with a assms(4) show ?thesis by simp
  qed
qed

lemma length_or_words [simp]: "length (or_words n off ori dst) = length dst"
  by (simp add: or_words_def)

lemma or_words_test:
  assumes "0 \<le> off" and "n = int (length ori)" and "off + n \<le> int (length dst)"
  shows "bitmap_test (or_words n off ori dst) i
         = (bitmap_test dst i \<or> bitmap_test ori (i - 64 * off))"
proof -
  have rd: "rd_word (or_words n off ori dst) k =
              (if off \<le> k \<and> k < off + n \<and> 0 \<le> k \<and> k < int (length dst)
               then rd_word dst k OR rd_word ori (k - off) else rd_word dst k)" for k
    unfolding or_words_def
    using for_loop_words_rd [where F = "\<lambda>j w. w OR rd_word ori j" and off = off and n = n
        and dst = dst and k = k]
    by simp
  show ?thesis
  proof (cases "off \<le> i div 64 \<and> i div 64 < off + n")
    case True
    then have "rd_word (or_words n off ori dst) (i div 64)
               = rd_word dst (i div 64) OR rd_word ori (i div 64 - off)"
      using assms unfolding rd by auto
    then show ?thesis
      by (simp add: bitmap_test_def[of "or_words n off ori dst"] bit_or_iff bitmap_test_shift)
         (simp add: bitmap_test_def)
  next
    case False
    then have "rd_word (or_words n off ori dst) (i div 64) = rd_word dst (i div 64)"
      by (auto simp: rd)
    then have a: "bitmap_test (or_words n off ori dst) i = bitmap_test dst i"
      by (simp add: bitmap_test_def)
    have "\<not> (0 \<le> i div 64 - off \<and> i div 64 - off < int (length ori))"
      using False assms by auto
    then have "rd_word ori (i div 64 - off) = 0" by (rule rd_word_outside)
    then have "\<not> bitmap_test ori (i - 64 * off)"
      using bitmap_test_shift[of ori i off] by simp
    with a show ?thesis by simp
  qed
qed

lemma length_set_sparse [simp]: "length (set_sparse sz base data bm) = length bm"
proof (cases "0 \<le> sz")
  case True
  then show ?thesis
    unfolding set_sparse_def
    by (induction sz rule: for_loop_induct) (simp_all add: for_loop_Suc)
next
  case False then show ?thesis by (simp add: set_sparse_def)
qed

lemma set_sparse_test:
  "bitmap_test (set_sparse sz base data bm) k
   = (bitmap_test bm k
      \<or> (\<exists>j. 0 \<le> j \<and> j < sz \<and> k = rd_int data j - base
               \<and> 0 \<le> k \<and> k < 64 * int (length bm)))"
proof (cases "0 \<le> sz")
  case False then show ?thesis by (auto simp: set_sparse_def)
next
  case True
  then show ?thesis
  proof (induction sz rule: for_loop_induct)
    case zero
    then show ?case by (auto simp: set_sparse_def)
  next
    case (step m)
    have e: "set_sparse (m + 1) base data bm
             = bitmap_set (set_sparse m base data bm) (rd_int data m - base)"
      unfolding set_sparse_def for_loop_Suc[OF step(1)] ..
    have "(\<exists>j. 0 \<le> j \<and> j < m + 1 \<and> Q j) = ((\<exists>j. 0 \<le> j \<and> j < m \<and> Q j) \<or> Q m)" for Q
      using step(1) by (auto simp: less_le)
    then show ?case
      unfolding e bitmap_test_set step(3) length_set_sparse by auto
  qed
qed

section \<open>The node invariant\<close>

subsection \<open>Sparse nodes\<close>

lemma length_wr_int [simp]: "length (wr_int buf i v) = length buf"
  by (simp add: wr_int_def)

lemma rd_wr_int:
  "rd_int (wr_int buf i v) k =
     (if k = i \<and> 0 \<le> i \<and> i < int (length buf) then v else rd_int buf k)"
  by (auto simp: rd_int_def wr_int_def nth_list_update nat_eq_iff)

lemma rd_int_nth: "k < length buf \<Longrightarrow> rd_int buf (int k) = buf ! k"
  by (simp add: rd_int_def)

lemma length_for_loop_ints [simp]:
  "length (for_loop n (\<lambda>j d. wr_int d (g j) (h j d)) dst) = length dst"
proof (cases "0 \<le> n")
  case True
  then show ?thesis
    by (induction n rule: for_loop_induct) (simp_all add: for_loop_Suc)
next
  case False then show ?thesis by simp
qed

lemma for_loop_ints_rd:
  "rd_int (for_loop n (\<lambda>j d. wr_int d j (g j)) dst) k =
     (if 0 \<le> k \<and> k < n \<and> k < int (length dst) then g k else rd_int dst k)"
proof (cases "0 \<le> n")
  case False then show ?thesis by auto
next
  case True
  then show ?thesis
  proof (induction n rule: for_loop_induct)
    case zero
    then show ?case by auto
  next
    case (step m)
    show ?case
      unfolding for_loop_Suc[OF step(1)] rd_wr_int length_for_loop_ints
      using step by auto
  qed
qed

lemma take_eq_rd_int:
  assumes "m \<le> length xs" "m \<le> length ys"
    and "\<And>k. 0 \<le> k \<Longrightarrow> k < int m \<Longrightarrow> rd_int xs k = rd_int ys k"
  shows "take m xs = take m ys"
proof (rule nth_equalityI)
  show "length (take m xs) = length (take m ys)" using assms by simp
next
  fix i assume "i < length (take m xs)"
  then have i: "i < m" by simp
  have "rd_int xs (int i) = rd_int ys (int i)" using assms(3)[of "int i"] i by simp
  then show "take m xs ! i = take m ys ! i"
    using i assms by (simp add: rd_int_nth)
qed

lemma sparse_grow_props:
  assumes "0 \<le> node_size n" "node_size n \<le> node_capacity n"
    "int (length (data_sparse n)) = node_capacity n"
  shows "node_size (sparse_grow n) = node_size n"
    and "node_size n < node_capacity (sparse_grow n)"
    and "int (length (data_sparse (sparse_grow n))) = node_capacity (sparse_grow n)"
    and "take (nat (node_size n)) (data_sparse (sparse_grow n))
         = take (nat (node_size n)) (data_sparse n)"
    and "node_type (sparse_grow n) = node_type n"
    and "node_min (sparse_grow n) = node_min n" and "node_max (sparse_grow n) = node_max n"
    and "node_min_aligned (sparse_grow n) = node_min_aligned n"
    and "node_max_aligned (sparse_grow n) = node_max_aligned n"
proof -
  show "node_size (sparse_grow n) = node_size n" by (simp add: sparse_grow_def)
  show "node_size n < node_capacity (sparse_grow n)"
    using assms by (auto simp: sparse_grow_def)
  show "int (length (data_sparse (sparse_grow n))) = node_capacity (sparse_grow n)"
    using assms by (auto simp: sparse_grow_def malloc_int_def)
  show "node_type (sparse_grow n) = node_type n" by (simp add: sparse_grow_def)
  show "node_min (sparse_grow n) = node_min n" by (simp add: sparse_grow_def)
  show "node_max (sparse_grow n) = node_max n" by (simp add: sparse_grow_def)
  show "node_min_aligned (sparse_grow n) = node_min_aligned n" by (simp add: sparse_grow_def)
  show "node_max_aligned (sparse_grow n) = node_max_aligned n" by (simp add: sparse_grow_def)
  show "take (nat (node_size n)) (data_sparse (sparse_grow n))
         = take (nat (node_size n)) (data_sparse n)"
  proof (cases "node_capacity n = 0")
    case True
    then show ?thesis using assms by (simp add: sparse_grow_def)
  next
    case cap: False
    show ?thesis
    proof (cases "node_size n \<ge> node_capacity n")
      case False
      then show ?thesis using cap by (simp add: sparse_grow_def)
    next
      case True
      let ?new = "for_loop (node_size n) (\<lambda>i d. wr_int d i (rd_int (data_sparse n) i))
                   (malloc_int (node_capacity n * 2))"
      have g: "data_sparse (sparse_grow n) = ?new"
        using cap True by (simp add: sparse_grow_def)
      have "take (nat (node_size n)) ?new = take (nat (node_size n)) (data_sparse n)"
      proof (rule take_eq_rd_int)
        show "nat (node_size n) \<le> length ?new" using assms by (simp add: malloc_int_def)
        show "nat (node_size n) \<le> length (data_sparse n)" using assms by simp
        fix k :: int assume "0 \<le> k" "k < int (nat (node_size n))"
        then show "rd_int ?new k = rd_int (data_sparse n) k"
          unfolding for_loop_ints_rd using assms by (auto simp: malloc_int_def)
      qed
      then show ?thesis by (simp only: g)
    qed
  qed
qed

lemma align_down:
  fixes v :: int
  shows "v div 64 * 64 \<le> v" and "v < v div 64 * 64 + 64" and "v div 64 * 64 mod 64 = 0"
    and "((v div 64 + 1) * 64 - 1 + 1) mod 64 = 0"
    and "((v div 64 + 1) * 64 * 2 - 1 + 1) mod 64 = 0"
    and "0 \<le> v \<Longrightarrow> 0 \<le> v div 64 * 64"
  by (simp_all add: algebra_simps)

lemma mult64_div:
  fixes a :: int
  shows "a mod 64 = 0 \<Longrightarrow> 64 * (a div 64) = a"
  using mult_div_mod_eq[of 64 a] by simp

lemma div64_round_up:
  fixes n :: int
  assumes "n mod 64 = 0"
  shows "(n + 63) div 64 = n div 64"
proof -
  have "n = 64 * (n div 64)" using mult64_div[OF assms] by simp
  then have "(n + 63) div 64 = (63 + 64 * (n div 64)) div 64" by (simp add: add.commute)
  also have "\<dots> = n div 64" by (simp add: div_mult_self2)
  finally show ?thesis .
qed

lemma align_bound:
  fixes v :: int
  assumes "v < 1073741824"
  shows "(v div 64 + 1) * 64 * 2 - 1 \<le> 2147483647" and "(v div 64 + 1) * 64 - 1 \<le> 2147483647"
proof -
  have "v div 64 \<le> 1073741823 div 64" using assms by (intro zdiv_mono1) simp_all
  then have "v div 64 \<le> 16777215" by simp
  then show "(v div 64 + 1) * 64 * 2 - 1 \<le> 2147483647" "(v div 64 + 1) * 64 - 1 \<le> 2147483647"
    by simp_all
qed

lemma sparse_bounds_fields [simp]:
  "node_size (sparse_bounds n v) = node_size n"
  "node_capacity (sparse_bounds n v) = node_capacity n"
  "data_sparse (sparse_bounds n v) = data_sparse n"
  "data_dense (sparse_bounds n v) = data_dense n"
  "node_type (sparse_bounds n v) = node_type n"
  by (simp_all add: sparse_bounds_def)

lemma sparse_bounds_props:
  assumes inv: "node_inv n" and v: "0 \<le> v" "v < 1073741824"
  shows "0 \<le> node_min_aligned (sparse_bounds n v)"
    and "node_min_aligned (sparse_bounds n v) mod 64 = 0"
    and "(node_max_aligned (sparse_bounds n v) + 1) mod 64 = 0"
    and "node_min_aligned (sparse_bounds n v) \<le> node_min (sparse_bounds n v)"
    and "node_min (sparse_bounds n v) \<le> node_max (sparse_bounds n v)"
    and "node_max (sparse_bounds n v) \<le> node_max_aligned (sparse_bounds n v)"
    and "node_max_aligned (sparse_bounds n v) \<le> INT_MAX"
    and "node_min_aligned (sparse_bounds n v) \<le> node_min_aligned n"
    and "node_max_aligned n \<le> node_max_aligned (sparse_bounds n v)"
    and "node_min_aligned (sparse_bounds n v) \<le> v"
    and "v \<le> node_max_aligned (sparse_bounds n v)"
proof -
  have i: "0 \<le> node_min_aligned n" "node_min_aligned n mod 64 = 0"
    "(node_max_aligned n + 1) mod 64 = 0" "node_min_aligned n \<le> node_min n"
    "node_min n \<le> node_max n" "node_max n \<le> node_max_aligned n"
    "node_max_aligned n \<le> 2147483647"
    using inv by (simp_all add: node_inv_def INT_MAX_def)
  have c: "cdiv v 64 = v div 64" using v by (simp add: cdiv_nonneg)
  note a = align_down[of v] align_bound[OF v(2)]
  show "0 \<le> node_min_aligned (sparse_bounds n v)"
    using i v a by (simp add: sparse_bounds_def c op_len_def)
  show "node_min_aligned (sparse_bounds n v) mod 64 = 0"
    using i a by (simp add: sparse_bounds_def c op_len_def)
  show "(node_max_aligned (sparse_bounds n v) + 1) mod 64 = 0"
    using i a by (simp add: sparse_bounds_def c op_len_def)
  show "node_min_aligned (sparse_bounds n v) \<le> node_min (sparse_bounds n v)"
    using i a by (auto simp: sparse_bounds_def c op_len_def)
  show "node_min (sparse_bounds n v) \<le> node_max (sparse_bounds n v)"
    using i by (auto simp: sparse_bounds_def)
  show "node_max (sparse_bounds n v) \<le> node_max_aligned (sparse_bounds n v)"
    using i a by (auto simp: sparse_bounds_def c op_len_def)
  show "node_max_aligned (sparse_bounds n v) \<le> INT_MAX"
    using i a by (auto simp: sparse_bounds_def c op_len_def INT_MAX_def)
  show "node_min_aligned (sparse_bounds n v) \<le> node_min_aligned n"
    using i a by (auto simp: sparse_bounds_def c op_len_def)
  show "node_max_aligned n \<le> node_max_aligned (sparse_bounds n v)"
    using i a by (auto simp: sparse_bounds_def c op_len_def)
  show "node_min_aligned (sparse_bounds n v) \<le> v"
    using i a by (auto simp: sparse_bounds_def c op_len_def)
  show "v \<le> node_max_aligned (sparse_bounds n v)"
    using i a by (auto simp: sparse_bounds_def c op_len_def)
qed

lemma take_wr_int_end:
  assumes "0 \<le> s" "s < int (length xs)"
  shows "take (nat (s + 1)) (wr_int xs s v) = take (nat s) xs @ [v]"
proof -
  have n: "nat (s + 1) = Suc (nat s)" using assms by simp
  have l: "nat s < length xs" using assms by simp
  have "wr_int xs s v = xs[nat s := v]" using assms by (simp add: wr_int_def)
  then show ?thesis using l by (simp add: n take_Suc_conv_app_nth)
qed

lemma node_docs_Sparse:
  "node_type n = Sparse \<Longrightarrow> node_docs n = set (take (nat (node_size n)) (data_sparse n))"
  by (simp add: node_docs_def)

lemma AddSparse_inv:
  assumes inv: "node_inv n" and sp: "node_type n = Sparse"
    and v: "0 \<le> v" "v < 1073741824" and fresh: "v \<notin> node_docs n"
  shows "node_inv (snd (AddSparse n v))"
    and "node_docs (snd (AddSparse n v)) = insert v (node_docs n)"
    and "node_type (snd (AddSparse n v)) = Sparse"
proof -
  let ?b = "sparse_bounds n v"
  let ?g = "sparse_grow ?b"
  let ?r = "snd (AddSparse n v)"
  let ?xs = "take (nat (node_size n)) (data_sparse n)"
  have i: "0 \<le> node_size n" "node_size n \<le> node_capacity n"
    "int (length (data_sparse n)) = node_capacity n" "distinct ?xs"
    "\<forall>x \<in> set ?xs. node_min_aligned n \<le> x \<and> x \<le> node_max_aligned n"
    using inv sp by (simp_all add: node_inv_def)
  note g = sparse_grow_props[of ?b, simplified, OF i(1) i(2) i(3)]
  note b = sparse_bounds_props[OF inv v]
  have r: "?r = ?g\<lparr> data_sparse := wr_int (data_sparse ?g) (node_size n) v,
                     node_size := node_size n + 1 \<rparr>"
    by (simp add: AddSparse_def Let_def g(1))
  have s: "node_size n < int (length (data_sparse ?g))" using g(2) g(3) by simp
  have sz: "node_size ?r = node_size n + 1" unfolding r by simp
  have t: "take (nat (node_size n + 1)) (data_sparse ?r) = ?xs @ [v]"
    unfolding r using take_wr_int_end[OF i(1) s] g(4) by simp
  show ty: "node_type ?r = Sparse" unfolding r using g(5) sp by simp
  show "node_docs ?r = insert v (node_docs n)"
    unfolding node_docs_Sparse[OF ty] node_docs_Sparse[OF sp] sz t by simp
  have f: "v \<notin> set ?xs" using fresh sp by (simp add: node_docs_Sparse)
  have m: "node_min ?r = node_min ?b" "node_max ?r = node_max ?b"
    "node_min_aligned ?r = node_min_aligned ?b" "node_max_aligned ?r = node_max_aligned ?b"
    "node_capacity ?r = node_capacity ?g" "node_size ?r = node_size n + 1"
    "int (length (data_sparse ?r)) = node_capacity ?g"
    unfolding r using g by simp_all
  have span: "\<forall>x \<in> set (?xs @ [v]). node_min_aligned ?b \<le> x \<and> x \<le> node_max_aligned ?b"
    using i(5) b(8) b(9) b(10) b(11) by fastforce
  show "node_inv ?r"
    unfolding node_inv_def m t using ty b(1-7) g(2) i(1) i(4) f span by simp
qed

lemma find_loop_props:
  assumes "0 \<le> i" "i \<le> sz" "sz \<le> int (length d)"
  shows "i \<le> find_loop d sz v i \<and> find_loop d sz v i \<le> sz
       \<and> (find_loop d sz v i < sz \<longrightarrow> d ! nat (find_loop d sz v i) = v)
       \<and> (\<forall>j. i \<le> j \<and> j < find_loop d sz v i \<longrightarrow> d ! nat j \<noteq> v)"
  using assms
proof (induction d sz v i rule: find_loop.induct)
  case (1 d sz v i)
  show ?case
  proof (cases "i < sz")
    case False
    then have "find_loop d sz v i = i" by (subst find_loop.simps) simp
    then show ?thesis using "1.prems" False by simp
  next
    case lt: True
    then have rd: "rd_int d i = d ! nat i" using "1.prems" by (simp add: rd_int_def)
    show ?thesis
    proof (cases "d ! nat i = v")
      case True
      then show ?thesis using lt rd by (simp add: find_loop.simps[of d sz v i])
    next
      case False
      then have e: "find_loop d sz v i = find_loop d sz v (i + 1)"
        using lt rd by (simp add: find_loop.simps[of d sz v i])
      have ih: "i + 1 \<le> find_loop d sz v (i + 1) \<and> find_loop d sz v (i + 1) \<le> sz
       \<and> (find_loop d sz v (i + 1) < sz \<longrightarrow> d ! nat (find_loop d sz v (i + 1)) = v)
       \<and> (\<forall>j. i + 1 \<le> j \<and> j < find_loop d sz v (i + 1) \<longrightarrow> d ! nat j \<noteq> v)"
        using "1.IH"[OF lt] False rd "1.prems" lt by simp
      have "d ! nat j \<noteq> v" if "i \<le> j" "j < find_loop d sz v (i + 1)" for j
      proof (cases "j = i")
        case True then show ?thesis using False by simp
      next
        case False
        then show ?thesis using ih that by simp
      qed
      then show ?thesis unfolding e using ih by auto
    qed
  qed
qed

lemma for_range_empty [simp]: "m \<le> a \<Longrightarrow> 0 \<le> a \<Longrightarrow> for_range a m body s = s"
  by (simp add: for_range_def)

lemma for_range_Suc:
  "0 \<le> a \<Longrightarrow> a \<le> m \<Longrightarrow> for_range a (m + 1) body s = body m (for_range a m body s)"
  by (simp add: for_range_def nat_add_distrib nat_le_eq_zle)

lemma for_range_induct [consumes 2, case_names base step]:
  assumes "0 \<le> (a::int)" "a \<le> n" and "P a"
    and "\<And>m. a \<le> m \<Longrightarrow> m < n \<Longrightarrow> P m \<Longrightarrow> P (m + 1)"
  shows "P n"
proof -
  have "a + int k \<le> n \<Longrightarrow> P (a + int k)" for k
  proof (induction k)
    case 0 then show ?case using assms(3) by simp
  next
    case (Suc k)
    then have "P (a + int k + 1)" using assms(4)[of "a + int k"] by simp
    then show ?case by (simp add: add.commute add.left_commute)
  qed
  from this[of "nat (n - a)"] assms(2) show ?thesis by simp
qed

lemma shift_loop_props:
  assumes "0 \<le> a" "a \<le> m" "m < int (length d)"
  shows "length (for_range a m (\<lambda>j d. wr_int d j (rd_int d (j + 1))) d) = length d
       \<and> (\<forall>k. rd_int (for_range a m (\<lambda>j d. wr_int d j (rd_int d (j + 1))) d) k
               = (if a \<le> k \<and> k < m then rd_int d (k + 1) else rd_int d k))"
  using assms
proof (induction m rule: for_range_induct)
  case base
  then show ?case using assms(1) by simp
next
  case (step m)
  then have ih: "length (for_range a m (\<lambda>j d. wr_int d j (rd_int d (j + 1))) d) = length d"
    "\<And>k. rd_int (for_range a m (\<lambda>j d. wr_int d j (rd_int d (j + 1))) d) k
               = (if a \<le> k \<and> k < m then rd_int d (k + 1) else rd_int d k)"
    by simp_all
  show ?case
    unfolding for_range_Suc[OF assms(1) step.hyps(1)]
    using assms(1) step.prems step.hyps by (auto simp: rd_wr_int ih)
qed

lemma remove_nth_set:
  assumes "distinct xs" "r < length xs"
  shows "set (take r xs @ drop (Suc r) xs) = set xs - {xs ! r}"
    and "distinct (take r xs @ drop (Suc r) xs)"
proof -
  have e: "xs = take r xs @ xs ! r # drop (Suc r) xs"
    using assms(2) by (rule id_take_nth_drop)
  have d: "distinct (take r xs @ xs ! r # drop (Suc r) xs)" using assms(1) e by simp
  then show "distinct (take r xs @ drop (Suc r) xs)" by simp
  have "set xs = set (take r xs @ xs ! r # drop (Suc r) xs)" using e by simp
  then show "set (take r xs @ drop (Suc r) xs) = set xs - {xs ! r}"
    using d by auto
qed

lemma DeleteSparse_inv:
  assumes inv: "node_inv n" and sp: "node_type n = Sparse" and mem: "v \<in> node_docs n"
  shows "fst (DeleteSparse n v) = 0"
    and "node_inv (snd (DeleteSparse n v))"
    and "node_docs (snd (DeleteSparse n v)) = node_docs n - {v}"
    and "node_type (snd (DeleteSparse n v)) = Sparse"
proof -
  let ?d = "data_sparse n"
  let ?sz = "node_size n"
  let ?xs = "take (nat ?sz) ?d"
  let ?i = "find_loop ?d ?sz v 0"
  let ?d' = "for_range ?i (?sz - 1) (\<lambda>j d. wr_int d j (rd_int d (j + 1))) ?d"
  have i: "0 \<le> ?sz" "?sz \<le> node_capacity n" "int (length ?d) = node_capacity n"
    "distinct ?xs" "\<forall>x \<in> set ?xs. node_min_aligned n \<le> x \<and> x \<le> node_max_aligned n"
    using inv sp by (simp_all add: node_inv_def)
  have len: "?sz \<le> int (length ?d)" using i by simp
  note f = find_loop_props[OF order_refl i(1) len, of v]
  have vin: "v \<in> set ?xs" using mem sp by (simp add: node_docs_Sparse)
  then obtain j where j: "j < length ?xs" "?xs ! j = v" by (auto simp: in_set_conv_nth)
  have lt: "?i < ?sz"
  proof (rule ccontr)
    assume "\<not> ?i < ?sz"
    then have "?i = ?sz" using f by simp
    then have "\<forall>k. 0 \<le> k \<and> k < ?sz \<longrightarrow> ?d ! nat k \<noteq> v" using f by simp
    moreover have "0 \<le> int j \<and> int j < ?sz" using j(1) by auto
    ultimately have "?d ! nat (int j) \<noteq> v" by blast
    then show False using j by simp
  qed
  then have at: "?d ! nat ?i = v" using f by simp
  have ne: "?i \<noteq> ?sz" using lt by simp
  have r: "DeleteSparse n v = (0, n\<lparr> data_sparse := ?d', node_size := ?sz - 1 \<rparr>)"
    using ne by (simp add: DeleteSparse_def Let_def)
  show "fst (DeleteSparse n v) = 0" by (simp add: r)
  show ty: "node_type (snd (DeleteSparse n v)) = Sparse" using sp by (simp add: r)
  have i0: "0 \<le> ?i" using f by simp
  have "?i \<le> ?sz - 1" using lt by simp
  moreover have "?sz - 1 < int (length ?d)" using len by simp
  ultimately have sh: "length ?d' = length ?d"
    "\<And>k. rd_int ?d' k = (if ?i \<le> k \<and> k < ?sz - 1 then rd_int ?d (k + 1) else rd_int ?d k)"
    using shift_loop_props[OF i0, of "?sz - 1" ?d] by simp_all
  obtain s r where sr: "?sz = int s" "?i = int r"
    using i0 i(1) by (metis nonneg_int_cases)
  have sr2: "find_loop ?d (int s) v 0 = int r" using sr by simp
  have srl: "r < s" "s \<le> length ?d" using lt len sr by linarith+
  have n1: "nat (?sz - 1) = s - 1" "nat ?sz = s" "nat ?i = r" using sr by linarith+
  have t: "take (nat (?sz - 1)) ?d' = take (nat ?i) ?xs @ drop (Suc (nat ?i)) ?xs"
    unfolding n1
  proof (rule nth_equalityI)
    show "length (take (s - 1) ?d') = length (take r (take s ?d) @ drop (Suc r) (take s ?d))"
    proof -
      have "length (take (s - 1) ?d') = s - 1" using sh(1) srl by simp
      moreover have "length (take r (take s ?d) @ drop (Suc r) (take s ?d)) = r + (s - Suc r)"
        using srl by simp
      ultimately show ?thesis using srl by simp
    qed
  next
    fix k assume "k < length (take (s - 1) ?d')"
    then have k: "k < s - 1" by simp
    then have kl: "k < length ?d'" "k < length ?d" "Suc k < length ?d" "Suc k < s"
      using sh(1) srl by simp_all
    have "take (s - 1) ?d' ! k = rd_int ?d' (int k)"
      using k kl by (simp add: rd_int_nth)
    also have "\<dots> = (if ?i \<le> int k \<and> int k < ?sz - 1
                          then rd_int ?d (int k + 1) else rd_int ?d (int k))"
      by (rule sh(2))
    also have "\<dots> = (if r \<le> k then rd_int ?d (int k + 1) else rd_int ?d (int k))"
    proof -
      have "?i \<le> int k \<longleftrightarrow> r \<le> k" by (simp only: sr(2) of_nat_le_iff)
      moreover have "int k < ?sz - 1" using k sr(1) by linarith
      ultimately show ?thesis by simp
    qed
    also have "\<dots> = (if r \<le> k then ?d ! (Suc k) else ?d ! k)"
      using kl rd_int_nth[of "Suc k" ?d] rd_int_nth[of k ?d] by (simp add: add.commute)
    also have "\<dots> = (take r (take s ?d) @ drop (Suc r) (take s ?d)) ! k"
      using k kl srl by (auto simp: nth_append min_def)
    finally show "take (s - 1) ?d' ! k = (take r (take s ?d) @ drop (Suc r) (take s ?d)) ! k" .
  qed
  have ri: "nat ?i < length ?xs" using lt i0 len by simp
  have xv: "?xs ! nat ?i = v" using at ri by simp
  define ys where "ys = take (nat ?i) ?xs @ drop (Suc (nat ?i)) ?xs"
  note rm = remove_nth_set[OF i(4) ri, unfolded xv, folded ys_def]
  note t' = t[folded ys_def]
  have res: "node_size (snd (DeleteSparse n v)) = ?sz - 1"
    "data_sparse (snd (DeleteSparse n v)) = ?d'"
    "node_capacity (snd (DeleteSparse n v)) = node_capacity n"
    "node_min (snd (DeleteSparse n v)) = node_min n"
    "node_max (snd (DeleteSparse n v)) = node_max n"
    "node_min_aligned (snd (DeleteSparse n v)) = node_min_aligned n"
    "node_max_aligned (snd (DeleteSparse n v)) = node_max_aligned n"
    by (simp_all add: r)
  show "node_docs (snd (DeleteSparse n v)) = node_docs n - {v}"
    unfolding node_docs_Sparse[OF ty] node_docs_Sparse[OF sp] res t' rm(1) ..
  have sub: "\<forall>x \<in> set ys. node_min_aligned n \<le> x \<and> x \<le> node_max_aligned n"
    using i(5) unfolding rm(1) by simp
  have base: "0 \<le> node_min_aligned n" "node_min_aligned n mod 64 = 0"
    "(node_max_aligned n + 1) mod 64 = 0" "node_min_aligned n \<le> node_min n"
    "node_min n \<le> node_max n" "node_max n \<le> node_max_aligned n"
    "node_max_aligned n \<le> INT_MAX"
    using inv by (simp_all add: node_inv_def)
  show "node_inv (snd (DeleteSparse n v))"
    unfolding node_inv_def res t' ty
    using base i(2) i(3) lt i0 sh(1) rm(2) sub by simp
qed

subsection \<open>Dense nodes\<close>

lemma node_docs_Dense_iff:
  "node_type n = Dense \<Longrightarrow>
     d \<in> node_docs n \<longleftrightarrow> bitmap_test (data_dense n) (d - node_min_aligned n)"
  by (simp add: node_docs_def bitmap_docs_iff)

lemma finite_node_docs [simp]: "finite (node_docs n)"
  by (cases "node_type n") (simp_all add: node_docs_def)

lemma length_bitmap_create_aligned:
  assumes "n mod 64 = 0" "0 \<le> n"
  shows "64 * int (length (bitmap_create n)) = n"
proof -
  have "(n + 63) div 64 = n div 64" using assms(1) by (rule div64_round_up)
  moreover have "0 \<le> n div 64" using assms(2) by simp
  ultimately show ?thesis using mult64_div[OF assms(1)] by (simp add: length_bitmap_create)
qed

lemma dense_inv_intro:
  assumes ty: "node_type r = Dense"
    and b: "0 \<le> node_min_aligned r" "node_min_aligned r mod 64 = 0"
      "(node_max_aligned r + 1) mod 64 = 0" "node_min_aligned r \<le> node_min r"
      "node_min r \<le> node_max r" "node_max r \<le> node_max_aligned r"
      "node_max_aligned r \<le> INT_MAX"
    and len: "64 * int (length (data_dense r)) = node_max_aligned r - node_min_aligned r + 1"
    and docs: "node_docs r = D"
    and sz: "node_size r = int (card D)"
  shows "node_inv r"
  using assms by (simp add: node_inv_def)

lemma dense_inv_elim:
  assumes "node_inv n" "node_type n = Dense"
  shows "0 \<le> node_min_aligned n" "node_min_aligned n mod 64 = 0"
      "(node_max_aligned n + 1) mod 64 = 0" "node_min_aligned n \<le> node_min n"
      "node_min n \<le> node_max n" "node_max n \<le> node_max_aligned n"
      "node_max_aligned n \<le> INT_MAX"
      "64 * int (length (data_dense n)) = node_max_aligned n - node_min_aligned n + 1"
      "node_size n = int (card (node_docs n))"
  using assms by (simp_all add: node_inv_def)

lemma DeleteDense_inv:
  assumes inv: "node_inv n" and de: "node_type n = Dense" and mem: "v \<in> node_docs n"
  shows "fst (DeleteDense n v) = 0"
    and "node_inv (snd (DeleteDense n v))"
    and "node_docs (snd (DeleteDense n v)) = node_docs n - {v}"
    and "node_type (snd (DeleteDense n v)) = Dense"
proof -
  note i = dense_inv_elim[OF inv de]
  have t: "bitmap_test (data_dense n) (v - node_min_aligned n)"
    using mem de by (simp add: node_docs_Dense_iff)
  from bitmap_test_range[OF t] i(8)
  have span: "0 \<le> v - node_min_aligned n" "v \<le> node_max_aligned n" by linarith+
  let ?r = "n\<lparr> node_size := node_size n - 1,
                data_dense := bitmap_unset (data_dense n) (v - node_min_aligned n) \<rparr>"
  have r: "DeleteDense n v = (0, ?r)"
    using span by (simp add: DeleteDense_def Let_def)
  show "fst (DeleteDense n v) = 0" by (simp add: r)
  have ty: "node_type ?r = Dense" using de by simp
  then show "node_type (snd (DeleteDense n v)) = Dense" by (simp add: r)
  have d: "node_docs ?r = node_docs n - {v}"
  proof (rule set_eqI)
    fix d
    show "d \<in> node_docs ?r \<longleftrightarrow> d \<in> node_docs n - {v}"
      unfolding node_docs_Dense_iff[OF ty] by (auto simp: bitmap_test_unset node_docs_Dense_iff[OF de])
  qed
  then show "node_docs (snd (DeleteDense n v)) = node_docs n - {v}" by (simp add: r)
  have "node_docs n \<noteq> {}" using mem by auto
  then have "1 \<le> card (node_docs n)" by (simp add: Suc_leI card_gt_0_iff)
  then have c: "int (card (node_docs n - {v})) = int (card (node_docs n)) - 1"
    using mem by (simp add: card_Diff_singleton of_nat_diff)
  have "node_inv ?r"
  proof (rule dense_inv_intro[OF ty _ _ _ _ _ _ _ _ d])
    show "0 \<le> node_min_aligned ?r" using i(1) by simp
    show "node_min_aligned ?r mod 64 = 0" using i(2) by simp
    show "(node_max_aligned ?r + 1) mod 64 = 0" using i(3) by simp
    show "node_min_aligned ?r \<le> node_min ?r" using i(4) by simp
    show "node_min ?r \<le> node_max ?r" using i(5) by simp
    show "node_max ?r \<le> node_max_aligned ?r" using i(6) by simp
    show "node_max_aligned ?r \<le> INT_MAX" using i(7) by simp
    show "64 * int (length (data_dense ?r)) = node_max_aligned ?r - node_min_aligned ?r + 1"
      using i(8) by simp
    show "node_size ?r = int (card (node_docs n - {v}))" using i(9) c by simp
  qed
  then show "node_inv (snd (DeleteDense n v))" by (simp add: r)
qed

lemma align_up:
  fixes v :: int
  shows "(v div 64 + 1) * 64 - 1 = v div 64 * 64 + 63"
    and "(v div 64 + 1) * 64 * 2 - 1 = 2 * (v div 64 * 64) + 127"
  by (simp_all add: algebra_simps)

lemma dense_result:
  assumes ty: "node_type r = Dense"
    and b: "0 \<le> node_min_aligned r" "node_min_aligned r mod 64 = 0"
      "(node_max_aligned r + 1) mod 64 = 0" "node_min_aligned r \<le> node_min r"
      "node_min r \<le> node_max r" "node_max r \<le> node_max_aligned r"
      "node_max_aligned r \<le> INT_MAX"
    and len: "64 * int (length (data_dense r)) = node_max_aligned r - node_min_aligned r + 1"
    and bits: "\<And>d. bitmap_test (data_dense r) (d - node_min_aligned r) \<longleftrightarrow> d = v \<or> d \<in> D"
    and fresh: "v \<notin> D" and fin: "finite D"
    and sz: "node_size r = int (card D) + 1"
  shows "node_inv r \<and> node_docs r = insert v D \<and> node_type r = Dense"
proof -
  have d: "node_docs r = insert v D"
    by (rule set_eqI) (simp add: node_docs_Dense_iff[OF ty] bits)
  have "int (card (insert v D)) = int (card D) + 1" using fresh fin by simp
  then have "node_size r = int (card (insert v D))" using sz by simp
  then have "node_inv r" by (rule dense_inv_intro[OF ty b len d])
  then show ?thesis using d ty by simp
qed

lemma diff_aligned:
  fixes a b :: int
  assumes "a mod 64 = 0" "b mod 64 = 0"
  shows "(a - b) mod 64 = 0" and "(a - b + 1 - 1) mod 64 = 0"
proof -
  have "(a - b) mod 64 = (a mod 64 - b mod 64) mod 64" by (simp add: mod_diff_eq)
  then show "(a - b) mod 64 = 0" using assms by simp
  then show "(a - b + 1 - 1) mod 64 = 0" by simp
qed

lemma AddDense_empty:
  assumes inv: "node_inv n" and de: "node_type n = Dense"
    and v: "0 \<le> v" "v < 1073741824" and z: "node_size n = 0"
  shows "node_inv (snd (AddDense n v)) \<and> node_docs (snd (AddDense n v)) = insert v (node_docs n)
         \<and> node_type (snd (AddDense n v)) = Dense"
proof -
  note i = dense_inv_elim[OF inv de]
  have c: "cdiv v 64 = v div 64" using v by (simp add: cdiv_nonneg)
  define A where "A = v div 64 * 64"
  have A: "A \<le> v" "v < A + 64" "A mod 64 = 0" "0 \<le> A"
    using align_down[of v] v unfolding A_def by simp_all
  have AM: "A + 63 \<le> 2147483647" using align_bound(2)[OF v(2)] unfolding align_up A_def .
  let ?r = "n\<lparr> node_min := v, node_max := v, node_min_aligned := A, node_max_aligned := A + 63,
       data_dense := bitmap_set (bitmap_create 64) (v - A), node_size := 1 \<rparr>"
  have r: "snd (AddDense n v) = ?r"
    using z by (simp add: AddDense_def Let_def op_len_def c align_up A_def)
  have e: "node_docs n = {}" using i(9) z by simp
  have ty: "node_type ?r = Dense" using de by simp
  have l: "length (bitmap_create 64) = 1" by (simp add: length_bitmap_create)
  have bits: "bitmap_test (data_dense ?r) (d - node_min_aligned ?r) \<longleftrightarrow> d = v \<or> d \<in> {}" for d
    using A by (auto simp: bitmap_test_set l)
  have "node_inv ?r \<and> node_docs ?r = insert v {} \<and> node_type ?r = Dense"
  proof (rule dense_result[OF ty _ _ _ _ _ _ _ _ bits])
    show "0 \<le> node_min_aligned ?r" using A by simp
    show "node_min_aligned ?r mod 64 = 0" using A by simp
    show "(node_max_aligned ?r + 1) mod 64 = 0" using A(3) by simp
    show "node_min_aligned ?r \<le> node_min ?r" using A by simp
    show "node_min ?r \<le> node_max ?r" by simp
    show "node_max ?r \<le> node_max_aligned ?r" using A by simp
    show "node_max_aligned ?r \<le> INT_MAX" using AM by (simp add: INT_MAX_def)
    show "64 * int (length (data_dense ?r)) = node_max_aligned ?r - node_min_aligned ?r + 1"
      by (simp add: l)
    show "node_size ?r = int (card ({} :: int set)) + 1" by simp
  qed simp_all
  then show ?thesis by (simp only: r e)
qed

lemma AddDense_below:
  assumes inv: "node_inv n" and de: "node_type n = Dense"
    and v: "0 \<le> v" "v < 1073741824" and nz: "node_size n \<noteq> 0"
    and lt: "v < node_min_aligned n" and fresh: "v \<notin> node_docs n"
  shows "node_inv (snd (AddDense n v)) \<and> node_docs (snd (AddDense n v)) = insert v (node_docs n)
         \<and> node_type (snd (AddDense n v)) = Dense"
proof -
  note i = dense_inv_elim[OF inv de]
  have c: "cdiv v 64 = v div 64" using v by (simp add: cdiv_nonneg)
  define A where "A = v div 64 * 64"
  define A0 where "A0 = node_min_aligned n"
  define M where "M = node_max_aligned n"
  define old where "old = data_dense n"
  have A: "A \<le> v" "v < A + 64" "A mod 64 = 0" "0 \<le> A"
    using align_down[of v] v unfolding A_def by simp_all
  have j: "A0 mod 64 = 0" "(M + 1) mod 64 = 0" "A0 \<le> node_min n" "node_min n \<le> node_max n"
    "node_max n \<le> M" "M \<le> INT_MAX" "64 * int (length old) = M - A0 + 1"
    using i unfolding A0_def M_def old_def by simp_all
  have lt': "v < A0" using lt unfolding A0_def .
  define S where "S = (A0 - A) div 64"
  have S64: "64 * S = A0 - A" unfolding S_def using diff_aligned(1)[OF j(1) A(3)] by (rule mult64_div)
  have S0: "0 \<le> S" using S64 lt' A(1) by simp
  have cS: "cdiv (A0 - A) 64 = S" unfolding S_def using lt' A(1) by (simp add: cdiv_nonneg)
  have cL: "cdiv (M - A0 + 1) 64 = int (length old)"
    using j(7)[symmetric] by (simp add: cdiv_nonneg)
  define new where "new = bitmap_create (M - A + 1)"
  have "(M - A + 1) mod 64 = 0"
    using diff_aligned(1)[OF j(2) A(3)] by (simp add: algebra_simps)
  moreover have "0 \<le> M - A + 1" using j lt' A by simp
  ultimately have ln: "64 * int (length new) = M - A + 1"
    unfolding new_def by (rule length_bitmap_create_aligned)
  have fit: "S + int (length old) \<le> int (length new)" using ln j(7) S64 by simp
  define cp where "cp = copy_words (int (length old)) S old new"
  have zero: "\<not> bitmap_test new k" for k unfolding new_def by simp
  have cpt: "bitmap_test cp k = bitmap_test old (k - 64 * S)" for k
    unfolding cp_def by (rule copy_words_test[OF S0 refl fit zero])
  have lcp: "length cp = length new" unfolding cp_def by simp
  let ?r = "n\<lparr> data_dense := bitmap_set cp (v - A), node_min := v, node_min_aligned := A,
                node_size := node_size n + 1 \<rparr>"
  have r: "snd (AddDense n v) = ?r"
    using nz lt
    by (simp add: AddDense_def Let_def op_len_def c cS[unfolded A0_def A_def]
          cL[unfolded M_def A0_def old_def] cp_def new_def A_def M_def old_def S_def A0_def)
  have ty: "node_type ?r = Dense" using de by simp
  have bits: "bitmap_test (data_dense ?r) (d - node_min_aligned ?r) \<longleftrightarrow> d = v \<or> d \<in> node_docs n" for d
  proof -
    have e: "d - A - 64 * S = d - A0" using S64 by simp
    have "bitmap_test cp (d - A) = bitmap_test old (d - A0)" unfolding cpt e ..
    then have "bitmap_test cp (d - A) \<longleftrightarrow> d \<in> node_docs n"
      unfolding node_docs_Dense_iff[OF de] old_def A0_def .
    moreover have "0 \<le> v - A \<and> v - A < 64 * int (length cp)"
      using A lcp ln j lt' by simp
    ultimately show ?thesis by (auto simp: bitmap_test_set)
  qed
  have "node_inv ?r \<and> node_docs ?r = insert v (node_docs n) \<and> node_type ?r = Dense"
  proof (rule dense_result[OF ty _ _ _ _ _ _ _ _ bits])
    show "0 \<le> node_min_aligned ?r" using A by simp
    show "node_min_aligned ?r mod 64 = 0" using A by simp
    show "(node_max_aligned ?r + 1) mod 64 = 0" using j(2) by (simp add: M_def)
    show "node_min_aligned ?r \<le> node_min ?r" using A by simp
    show "node_min ?r \<le> node_max ?r" using lt' j by simp
    show "node_max ?r \<le> node_max_aligned ?r" using j by (simp add: M_def)
    show "node_max_aligned ?r \<le> INT_MAX" using j by (simp add: M_def)
    show "64 * int (length (data_dense ?r)) = node_max_aligned ?r - node_min_aligned ?r + 1"
      using ln lcp by (simp add: M_def)
    show "node_size ?r = int (card (node_docs n)) + 1" using i(9) by simp
    show "v \<notin> node_docs n" by (rule fresh)
  qed simp
  then show ?thesis by (simp only: r)
qed


lemma AddDense_above:
  assumes inv: "node_inv n" and de: "node_type n = Dense"
    and v: "0 \<le> v" "v < 1073741824" and nz: "node_size n \<noteq> 0"
    and ge: "\<not> v < node_min_aligned n" and gt: "v > node_max_aligned n"
    and fresh: "v \<notin> node_docs n"
  shows "node_inv (snd (AddDense n v)) \<and> node_docs (snd (AddDense n v)) = insert v (node_docs n)
         \<and> node_type (snd (AddDense n v)) = Dense"
proof -
  note i = dense_inv_elim[OF inv de]
  have c: "cdiv v 64 = v div 64" using v by (simp add: cdiv_nonneg)
  define A where "A = v div 64 * 64"
  define A0 where "A0 = node_min_aligned n"
  define M0 where "M0 = node_max_aligned n"
  define M where "M = 2 * A + 127"
  define old where "old = data_dense n"
  have A: "A \<le> v" "v < A + 64" "A mod 64 = 0" "0 \<le> A"
    using align_down[of v] v unfolding A_def by simp_all
  have j: "0 \<le> A0" "A0 mod 64 = 0" "(M0 + 1) mod 64 = 0" "A0 \<le> node_min n"
    "node_min n \<le> node_max n" "node_max n \<le> M0" "64 * int (length old) = M0 - A0 + 1"
    using i unfolding A0_def M0_def old_def by simp_all
  have gt': "M0 < v" "A0 \<le> v" using gt ge unfolding M0_def A0_def by simp_all
  have MM: "M \<le> 2147483647" using align_bound(1)[OF v(2)] unfolding align_up A_def M_def .
  have Mv: "v \<le> M" unfolding M_def using A by simp
  have M64: "(M + 1) mod 64 = 0"
  proof -
    have "(2 * A) mod 64 = (2 * (A mod 64)) mod 64" by (simp add: mod_mult_right_eq)
    then have z: "(2 * A) mod 64 = 0" using A(3) by simp
    have "(2 * A + 128) mod 64 = ((2 * A) mod 64 + 128 mod 64) mod 64"
      by (simp only: mod_add_eq)
    then have "(2 * A + 128) mod 64 = 0" unfolding z by simp
    then show ?thesis unfolding M_def by (simp add: algebra_simps)
  qed
  have cL: "cdiv (M0 - A0 + 1) 64 = int (length old)"
    using j(7)[symmetric] by (simp add: cdiv_nonneg)
  define new where "new = bitmap_create (M - A0 + 1)"
  have "(M - A0 + 1) mod 64 = 0"
    using diff_aligned(1)[OF M64 j(2)] by (simp add: algebra_simps)
  moreover have "0 \<le> M - A0 + 1" using gt' Mv by simp
  ultimately have ln: "64 * int (length new) = M - A0 + 1"
    unfolding new_def by (rule length_bitmap_create_aligned)
  have fit: "0 + int (length old) \<le> int (length new)" using ln j(7) gt' Mv by simp
  define cp where "cp = copy_words (int (length old)) 0 old new"
  have zero: "\<not> bitmap_test new k" for k unfolding new_def by simp
  have cpt: "bitmap_test cp k = bitmap_test old (k - 64 * 0)" for k
    unfolding cp_def by (rule copy_words_test[OF order_refl refl fit zero])
  have lcp: "length cp = length new" unfolding cp_def by simp
  let ?r = "n\<lparr> data_dense := bitmap_set cp (v - A0), node_max := v, node_max_aligned := M,
                node_size := node_size n + 1 \<rparr>"
  have r: "snd (AddDense n v) = ?r"
    using nz ge gt
    by (simp add: AddDense_def Let_def op_len_def c align_up
          cL[unfolded M0_def A0_def old_def] cp_def new_def A_def M_def old_def A0_def)
  have ty: "node_type ?r = Dense" using de by simp
  have bits: "bitmap_test (data_dense ?r) (d - node_min_aligned ?r) \<longleftrightarrow> d = v \<or> d \<in> node_docs n" for d
  proof -
    have "bitmap_test cp (d - A0) = bitmap_test old (d - A0)" unfolding cpt by simp
    then have "bitmap_test cp (d - A0) \<longleftrightarrow> d \<in> node_docs n"
      unfolding node_docs_Dense_iff[OF de] old_def A0_def .
    moreover have "0 \<le> v - A0 \<and> v - A0 < 64 * int (length cp)"
      using lcp ln gt' Mv by simp
    ultimately show ?thesis by (auto simp: bitmap_test_set A0_def)
  qed
  have "node_inv ?r \<and> node_docs ?r = insert v (node_docs n) \<and> node_type ?r = Dense"
  proof (rule dense_result[OF ty _ _ _ _ _ _ _ _ bits])
    show "0 \<le> node_min_aligned ?r" using j by (simp add: A0_def)
    show "node_min_aligned ?r mod 64 = 0" using j by (simp add: A0_def)
    show "(node_max_aligned ?r + 1) mod 64 = 0" using M64 by simp
    show "node_min_aligned ?r \<le> node_min ?r" using j by (simp add: A0_def)
    show "node_min ?r \<le> node_max ?r" using gt' j by simp
    show "node_max ?r \<le> node_max_aligned ?r" using Mv by simp
    show "node_max_aligned ?r \<le> INT_MAX" using MM by (simp add: INT_MAX_def)
    show "64 * int (length (data_dense ?r)) = node_max_aligned ?r - node_min_aligned ?r + 1"
      using ln lcp by (simp add: A0_def)
    show "node_size ?r = int (card (node_docs n)) + 1" using i(9) by simp
    show "v \<notin> node_docs n" by (rule fresh)
  qed simp
  then show ?thesis by (simp only: r)
qed

lemma AddDense_inside:
  assumes inv: "node_inv n" and de: "node_type n = Dense"
    and v: "0 \<le> v" "v < 1073741824" and nz: "node_size n \<noteq> 0"
    and ge: "\<not> v < node_min_aligned n" and le: "\<not> v > node_max_aligned n"
    and fresh: "v \<notin> node_docs n"
  shows "node_inv (snd (AddDense n v)) \<and> node_docs (snd (AddDense n v)) = insert v (node_docs n)
         \<and> node_type (snd (AddDense n v)) = Dense"
proof -
  note i = dense_inv_elim[OF inv de]
  let ?r = "n\<lparr> data_dense := bitmap_set (data_dense n) (v - node_min_aligned n),
                node_min := min (node_min n) v, node_max := max (node_max n) v,
                node_size := node_size n + 1 \<rparr>"
  have r: "snd (AddDense n v) = ?r"
    using nz ge le by (simp add: AddDense_def Let_def)
  have ty: "node_type ?r = Dense" using de by simp
  have bits: "bitmap_test (data_dense ?r) (d - node_min_aligned ?r) \<longleftrightarrow> d = v \<or> d \<in> node_docs n" for d
  proof -
    have "0 \<le> v - node_min_aligned n \<and> v - node_min_aligned n < 64 * int (length (data_dense n))"
      using ge le i(8) by simp
    then show ?thesis by (auto simp: bitmap_test_set node_docs_Dense_iff[OF de])
  qed
  have "node_inv ?r \<and> node_docs ?r = insert v (node_docs n) \<and> node_type ?r = Dense"
  proof (rule dense_result[OF ty _ _ _ _ _ _ _ _ bits])
    show "0 \<le> node_min_aligned ?r" using i by simp
    show "node_min_aligned ?r mod 64 = 0" using i by simp
    show "(node_max_aligned ?r + 1) mod 64 = 0" using i by simp
    show "node_min_aligned ?r \<le> node_min ?r" using i ge by simp
    show "node_min ?r \<le> node_max ?r" using i by simp
    show "node_max ?r \<le> node_max_aligned ?r" using i le by simp
    show "node_max_aligned ?r \<le> INT_MAX" using i by simp
    show "64 * int (length (data_dense ?r)) = node_max_aligned ?r - node_min_aligned ?r + 1"
      using i by simp
    show "node_size ?r = int (card (node_docs n)) + 1" using i(9) by simp
    show "v \<notin> node_docs n" by (rule fresh)
  qed simp
  then show ?thesis by (simp only: r)
qed

lemma AddDense_inv:
  assumes "node_inv n" and "node_type n = Dense"
    and "0 \<le> v" "v < 1073741824" and "v \<notin> node_docs n"
  shows "node_inv (snd (AddDense n v)) \<and> node_docs (snd (AddDense n v)) = insert v (node_docs n)
         \<and> node_type (snd (AddDense n v)) = Dense"
proof (cases "node_size n = 0")
  case True
  then show ?thesis using assms by (intro AddDense_empty)
next
  case nz: False
  show ?thesis
  proof (cases "v < node_min_aligned n")
    case True
    then show ?thesis using assms nz by (intro AddDense_below)
  next
    case ge: False
    show ?thesis
    proof (cases "v > node_max_aligned n")
      case True
      then show ?thesis using assms nz ge by (intro AddDense_above)
    next
      case False
      then show ?thesis using assms nz ge by (intro AddDense_inside)
    qed
  qed
qed

subsection \<open>Conversions\<close>

lemma distinct_bitmap_docs [simp]: "distinct (bitmap_docs base buf)"
  by (simp add: bitmap_docs_def distinct_map inj_on_def)

lemma sparse_set_conv:
  assumes "0 \<le> sz" "sz \<le> int (length xs)"
  shows "set (take (nat sz) xs) = {d. \<exists>j. 0 \<le> j \<and> j < sz \<and> d = rd_int xs j}"
proof (rule set_eqI)
  fix d
  show "d \<in> set (take (nat sz) xs) \<longleftrightarrow> d \<in> {d. \<exists>j. 0 \<le> j \<and> j < sz \<and> d = rd_int xs j}"
  proof
    assume "d \<in> set (take (nat sz) xs)"
    then obtain k where k: "k < length (take (nat sz) xs)" "take (nat sz) xs ! k = d"
      by (auto simp: in_set_conv_nth)
    then have "0 \<le> int k \<and> int k < sz \<and> d = rd_int xs (int k)"
      using assms by (auto simp: rd_int_nth)
    then show "d \<in> {d. \<exists>j. 0 \<le> j \<and> j < sz \<and> d = rd_int xs j}" by blast
  next
    assume "d \<in> {d. \<exists>j. 0 \<le> j \<and> j < sz \<and> d = rd_int xs j}"
    then obtain j where j: "0 \<le> j" "j < sz" "d = rd_int xs j" by blast
    then have "nat j < length (take (nat sz) xs)" using assms by simp
    moreover have "take (nat sz) xs ! nat j = d" using j assms by (simp add: rd_int_def)
    ultimately show "d \<in> set (take (nat sz) xs)" by (metis nth_mem)
  qed
qed

lemma conv_dense_loop:
  fixes A M :: int
  defines "body \<equiv> (\<lambda>sp (i::int) d. let val = rd_int sp i in
                       if val < A \<or> val > M then d else bitmap_set d (val - A))"
  shows "length (for_loop sz (body sp) buf) = length buf
       \<and> (\<forall>k. bitmap_test (for_loop sz (body sp) buf) k
              = (bitmap_test buf k
                 \<or> (\<exists>j. 0 \<le> j \<and> j < sz \<and> \<not> (rd_int sp j < A \<or> rd_int sp j > M)
                        \<and> k = rd_int sp j - A \<and> 0 \<le> k \<and> k < 64 * int (length buf))))"
proof (cases "0 \<le> sz")
  case False then show ?thesis by auto
next
  case True
  then show ?thesis
  proof (induction sz rule: for_loop_induct)
    case zero
    then show ?case by auto
  next
    case (step m)
    have ex: "(\<exists>j. 0 \<le> j \<and> j < m + 1 \<and> Q j) = ((\<exists>j. 0 \<le> j \<and> j < m \<and> Q j) \<or> Q m)" for Q
      using step(1) by (auto simp: less_le)
    have l: "length (for_loop m (body sp) buf) = length buf" using step(3) by simp
    have t: "bitmap_test (for_loop m (body sp) buf) k
              = (bitmap_test buf k
                 \<or> (\<exists>j. 0 \<le> j \<and> j < m \<and> \<not> (rd_int sp j < A \<or> rd_int sp j > M)
                        \<and> k = rd_int sp j - A \<and> 0 \<le> k \<and> k < 64 * int (length buf)))" for k
      using step(3) by simp
    show ?case
    proof (cases "rd_int sp m < A \<or> rd_int sp m > M")
      case True
      then have e: "for_loop (m + 1) (body sp) buf = for_loop m (body sp) buf"
        unfolding for_loop_Suc[OF step(1)] by (simp add: body_def)
      show ?thesis unfolding e ex using True l t by auto
    next
      case False
      then have e: "for_loop (m + 1) (body sp) buf
                    = bitmap_set (for_loop m (body sp) buf) (rd_int sp m - A)"
        unfolding for_loop_Suc[OF step(1)] by (simp add: body_def)
      show ?thesis unfolding e ex bitmap_test_set using False l t by auto
    qed
  qed
qed

lemma ConvertToDense_inv:
  assumes inv: "node_inv n" and sp: "node_type n = Sparse"
  shows "node_inv (snd (ConvertToDense n))"
    and "node_docs (snd (ConvertToDense n)) = node_docs n"
    and "node_type (snd (ConvertToDense n)) = Dense"
    and "node_min (snd (ConvertToDense n)) = node_min n"
    and "node_max (snd (ConvertToDense n)) = node_max n"
proof -
  define A where "A = node_min_aligned n"
  define M where "M = node_max_aligned n"
  define xs where "xs = take (nat (node_size n)) (data_sparse n)"
  have i: "0 \<le> A" "A mod 64 = 0" "(M + 1) mod 64 = 0" "A \<le> node_min n"
    "node_min n \<le> node_max n" "node_max n \<le> M" "M \<le> INT_MAX"
    "0 \<le> node_size n" "node_size n \<le> node_capacity n"
    "int (length (data_sparse n)) = node_capacity n" "distinct xs"
    "\<forall>x \<in> set xs. A \<le> x \<and> x \<le> M"
    using inv sp unfolding A_def M_def xs_def by (simp_all add: node_inv_def)
  define new where "new = bitmap_create (M - A + 1)"
  have "(M - A + 1) mod 64 = 0"
    using diff_aligned(1)[OF i(3) i(2)] by (simp add: algebra_simps)
  moreover have "0 \<le> M - A + 1" using i by simp
  ultimately have ln: "64 * int (length new) = M - A + 1"
    unfolding new_def by (rule length_bitmap_create_aligned)
  define body where "body = (\<lambda>(i::int) d. let val = rd_int (data_sparse n) i in
                       if val < A \<or> val > M then d else bitmap_set d (val - A))"
  define buf where "buf = for_loop (node_size n) body new"
  note cl = conv_dense_loop[where sz = "node_size n" and A = A and M = M
      and sp = "data_sparse n" and buf = new, folded body_def buf_def]
  let ?r = "n\<lparr> data_dense := buf, node_type := Dense, data_sparse := [] \<rparr>"
  have r: "snd (ConvertToDense n) = ?r"
    unfolding buf_def body_def new_def A_def M_def
    by (simp add: ConvertToDense_def Let_def)
  have ty: "node_type ?r = Dense" by simp
  show "node_type (snd (ConvertToDense n)) = Dense" by (simp add: r)
  show "node_min (snd (ConvertToDense n)) = node_min n" by (simp add: r)
  show "node_max (snd (ConvertToDense n)) = node_max n" by (simp add: r)
  have sc: "set xs = {d. \<exists>j. 0 \<le> j \<and> j < node_size n \<and> d = rd_int (data_sparse n) j}"
    unfolding xs_def using i(8) i(9) i(10) by (intro sparse_set_conv) simp_all
  have d: "node_docs ?r = node_docs n"
  proof (rule set_eqI)
    fix d
    have "d \<in> node_docs ?r \<longleftrightarrow> bitmap_test buf (d - A)"
      unfolding node_docs_Dense_iff[OF ty] by (simp add: A_def)
    also have "\<dots> \<longleftrightarrow> (\<exists>j. 0 \<le> j \<and> j < node_size n
          \<and> \<not> (rd_int (data_sparse n) j < A \<or> rd_int (data_sparse n) j > M)
          \<and> d - A = rd_int (data_sparse n) j - A \<and> 0 \<le> d - A \<and> d - A < 64 * int (length new))"
      using cl unfolding new_def[symmetric] by (simp add: new_def)
    also have "\<dots> \<longleftrightarrow> (\<exists>j. 0 \<le> j \<and> j < node_size n \<and> d = rd_int (data_sparse n) j)"
      (is "?L \<longleftrightarrow> ?R")
    proof
      assume ?L then show ?R by auto
    next
      assume ?R
      then obtain j where j: "0 \<le> j" "j < node_size n" "d = rd_int (data_sparse n) j" by blast
      then have "d \<in> set xs" unfolding sc by blast
      then have "A \<le> d \<and> d \<le> M" using i(12) by blast
      then have "0 \<le> j \<and> j < node_size n
          \<and> \<not> (rd_int (data_sparse n) j < A \<or> rd_int (data_sparse n) j > M)
          \<and> d - A = rd_int (data_sparse n) j - A \<and> 0 \<le> d - A \<and> d - A < 64 * int (length new)"
        using j ln by simp
      then show ?L by blast
    qed
    also have "\<dots> \<longleftrightarrow> d \<in> set xs" unfolding sc by simp
    finally show "d \<in> node_docs ?r \<longleftrightarrow> d \<in> node_docs n"
      unfolding node_docs_Sparse[OF sp] xs_def .
  qed
  then show "node_docs (snd (ConvertToDense n)) = node_docs n" by (simp add: r)
  have cd: "int (card (node_docs n)) = node_size n"
    unfolding node_docs_Sparse[OF sp] using i(11) i(8) i(9) i(10)
    by (simp add: distinct_card xs_def)
  have "node_inv ?r"
  proof (rule dense_inv_intro[OF ty _ _ _ _ _ _ _ _ d])
    show "0 \<le> node_min_aligned ?r" using i by (simp add: A_def)
    show "node_min_aligned ?r mod 64 = 0" using i by (simp add: A_def)
    show "(node_max_aligned ?r + 1) mod 64 = 0" using i by (simp add: M_def)
    show "node_min_aligned ?r \<le> node_min ?r" using i by (simp add: A_def)
    show "node_min ?r \<le> node_max ?r" using i by simp
    show "node_max ?r \<le> node_max_aligned ?r" using i by (simp add: M_def)
    show "node_max_aligned ?r \<le> INT_MAX" using i by (simp add: M_def)
    show "64 * int (length (data_dense ?r)) = node_max_aligned ?r - node_min_aligned ?r + 1"
      using ln cl by (simp add: A_def M_def)
    show "node_size ?r = int (card (node_docs n))" using cd by simp
  qed
  then show "node_inv (snd (ConvertToDense n))" by (simp add: r)
qed

lemma bits_below_Suc:
  "bits_below buf (Suc k)
   = (if bitmap_test buf (int k) then bits_below buf k @ [int k] else bits_below buf k)"
  by (simp add: bits_below_def)

lemma bits_below_mono: "m \<le> N \<Longrightarrow> length (bits_below buf m) \<le> length (bits_below buf N)"
proof -
  assume "m \<le> N"
  then have "[0..<N] = [0..<m] @ [m..<N]"
    by (metis le_add_diff_inverse upt_add_eq_append zero_le)
  then show ?thesis by (simp add: bits_below_def)
qed

lemma bitmap_docs_bits_below:
  "bitmap_docs base buf = map (\<lambda>j. j + base) (bits_below buf (64 * length buf))"
  by (simp add: bitmap_docs_def bits_below_def add.commute)

lemma cts_loop_correct:
  assumes "m \<le> N" and "length sp = length (bits_below old N)"
    and "take (length (bits_below old m)) sp = map (\<lambda>j. j + A) (bits_below old m)"
  shows "cts_loop old A (int (length (bits_below old N))) (int N) (int m) sp
           (int (length (bits_below old m)))
         = (map (\<lambda>j. j + A) (bits_below old N), int (length (bits_below old N)))"
  using assms
proof (induction "N - m" arbitrary: m sp)
  case 0
  then have mn: "m = N" by simp
  have "sp = take (length (bits_below old N)) sp" using "0.prems"(2) by simp
  then have "sp = map (\<lambda>j. j + A) (bits_below old N)" using "0.prems"(3) mn by simp
  then show ?case unfolding mn by (subst cts_loop.simps) simp
next
  case (Suc k)
  then have lt: "m < N" by simp
  then have sm: "Suc m \<le> N" "k = N - Suc m" using Suc.hyps(2) by simp_all
  let ?idx = "length (bits_below old m)"
  have i1: "int m + 1 = int (Suc m)" by simp
  show ?case
  proof (cases "bitmap_test old (int m)")
    case False
    then have b: "bits_below old (Suc m) = bits_below old m" by (simp add: bits_below_Suc)
    have ih: "cts_loop old A (int (length (bits_below old N))) (int N) (int (Suc m)) sp
                (int (length (bits_below old (Suc m))))
              = (map (\<lambda>j. j + A) (bits_below old N), int (length (bits_below old N)))"
      by (rule Suc.hyps(1)[OF sm(2) sm(1) Suc.prems(2)]) (simp add: b Suc.prems(3))
    show ?thesis
      by (subst cts_loop.simps) (use lt False ih in \<open>simp add: b i1 del: of_nat_Suc\<close>)
  next
    case True
    then have b: "bits_below old (Suc m) = bits_below old m @ [int m]"
      by (simp add: bits_below_Suc)
    have "length (bits_below old (Suc m)) \<le> length (bits_below old N)"
      using sm(1) by (rule bits_below_mono)
    then have idx: "?idx < length (bits_below old N)" by (simp add: b)
    then have idx': "?idx < length sp" using Suc.prems(2) by simp
    let ?sp = "wr_int sp (int ?idx) (int m + A)"
    have w: "?sp = sp[?idx := int m + A]" using idx' by (simp add: wr_int_def)
    have t: "take (length (bits_below old (Suc m))) ?sp
             = map (\<lambda>j. j + A) (bits_below old (Suc m))"
      unfolding b w using idx' Suc.prems(3) by (simp add: take_Suc_conv_app_nth)
    have l: "length ?sp = length (bits_below old N)" using Suc.prems(2) by simp
    have ih: "cts_loop old A (int (length (bits_below old N))) (int N) (int (Suc m)) ?sp
                (int (length (bits_below old (Suc m))))
              = (map (\<lambda>j. j + A) (bits_below old N), int (length (bits_below old N)))"
      by (rule Suc.hyps(1)[OF sm(2) sm(1) l t])
    have i2: "int ?idx + 1 = int (length (bits_below old (Suc m)))" by (simp add: b)
    show ?thesis
      by (subst cts_loop.simps) (use lt True idx ih in \<open>simp add: i1 i2 del: of_nat_Suc\<close>)
  qed
qed

lemma ConvertToSparse_inv:
  assumes inv: "node_inv n" and de: "node_type n = Dense"
  shows "node_inv (snd (ConvertToSparse n))"
    and "node_docs (snd (ConvertToSparse n)) = node_docs n"
    and "node_type (snd (ConvertToSparse n)) = Sparse"
    and "node_min (snd (ConvertToSparse n)) = node_min n"
    and "node_max (snd (ConvertToSparse n)) = node_max n"
proof -
  note i = dense_inv_elim[OF inv de]
  define A where "A = node_min_aligned n"
  define old where "old = data_dense n"
  define N where "N = 64 * length old"
  define docs where "docs = map (\<lambda>j. j + A) (bits_below old N)"
  have bd: "bitmap_docs A old = docs"
    unfolding docs_def N_def by (rule bitmap_docs_bits_below)
  have nd: "node_docs n = set docs" using de by (simp add: node_docs_def A_def old_def bd[symmetric])
  have dd: "distinct docs" unfolding bd[symmetric] by simp
  have "card (set docs) = length docs" using dd by (rule distinct_card)
  then have sz: "node_size n = int (length (bits_below old N))"
    using i(9) unfolding nd by (simp add: docs_def)
  have off: "node_max_aligned n - A + 1 = int N"
    using i(8) unfolding N_def old_def A_def by simp
  have m0: "malloc_int (int (length (bits_below old N))) = replicate (length (bits_below old N)) 0"
    by (simp add: malloc_int_def)
  have z: "int 0 = 0" "int (length (bits_below old 0)) = 0" by (simp_all add: bits_below_def)
  have run: "cts_loop old A (int (length (bits_below old N))) (int N) (int 0)
               (replicate (length (bits_below old N)) 0) (int (length (bits_below old 0)))
             = (docs, int (length (bits_below old N)))"
    unfolding docs_def by (rule cts_loop_correct) (simp_all add: bits_below_def)
  have run': "cts_loop (data_dense n) (node_min_aligned n) (node_size n)
                (node_max_aligned n - node_min_aligned n + 1) 0 (malloc_int (node_size n)) 0
              = (docs, node_size n)"
    unfolding old_def[symmetric] A_def[symmetric]
    unfolding off sz m0
    using run unfolding z .
  let ?r = "n\<lparr> data_sparse := docs, node_capacity := node_size n, node_type := Sparse,
                data_dense := [] \<rparr>"
  have r: "snd (ConvertToSparse n) = ?r"
    by (simp add: ConvertToSparse_def Let_def run')
  show "node_type (snd (ConvertToSparse n)) = Sparse" by (simp add: r)
  show "node_min (snd (ConvertToSparse n)) = node_min n" by (simp add: r)
  show "node_max (snd (ConvertToSparse n)) = node_max n" by (simp add: r)
  have ld: "int (length docs) = node_size n" unfolding sz docs_def by simp
  then have tk: "take (nat (node_size n)) docs = docs" by simp
  have "node_docs ?r = set (take (nat (node_size n)) docs)" by (simp add: node_docs_def)
  then show "node_docs (snd (ConvertToSparse n)) = node_docs n"
    unfolding r tk nd .
  have span: "\<forall>x \<in> set docs. node_min_aligned n \<le> x \<and> x \<le> node_max_aligned n"
  proof
    fix x assume "x \<in> set docs"
    then have "bitmap_test old (x - A)" unfolding bd[symmetric] by (simp add: bitmap_docs_iff)
    from bitmap_test_range[OF this] show "node_min_aligned n \<le> x \<and> x \<le> node_max_aligned n"
      using i(8) unfolding A_def old_def by simp
  qed
  show "node_inv (snd (ConvertToSparse n))"
    unfolding r node_inv_def using i(1-7) ld dd span by (simp add: tk)
qed

subsection \<open>Add and Delete\<close>

lemma Node_Add_inv:
  assumes inv: "node_inv n" and v: "0 \<le> v" "v < 1073741824" and fresh: "v \<notin> node_docs n"
  shows "node_inv (snd (Node_Add n v))"
    and "node_docs (snd (Node_Add n v)) = insert v (node_docs n)"
proof -
  have "node_inv (snd (Node_Add n v)) \<and> node_docs (snd (Node_Add n v)) = insert v (node_docs n)"
  proof (cases "node_type n")
    case Dense
    show ?thesis
    proof (cases "node_max n - node_min n > 100000
                  \<and> density_lt_008 (node_size n) (node_max n - node_min n)")
      case True
      then have e: "Node_Add n v = AddSparse (snd (ConvertToSparse n)) v"
        using Dense by (simp add: Node_Add_def Let_def)
      note c = ConvertToSparse_inv[OF inv Dense]
      have f: "v \<notin> node_docs (snd (ConvertToSparse n))" using fresh c(2) by simp
      show ?thesis
        unfolding e using AddSparse_inv[OF c(1) c(3) v f] c(2) by simp
    next
      case False
      then have e: "Node_Add n v = AddDense n v"
        using Dense by (auto simp: Node_Add_def Let_def)
      show ?thesis unfolding e using AddDense_inv[OF inv Dense v fresh] by simp
    qed
  next
    case Sparse
    show ?thesis
    proof (cases "node_max n - node_min n > 100000
                  \<and> density_gt_01 (node_size n) (node_max n - node_min n)")
      case True
      then have e: "Node_Add n v = AddDense (snd (ConvertToDense n)) v"
        using Sparse by (simp add: Node_Add_def Let_def)
      note c = ConvertToDense_inv[OF inv Sparse]
      have f: "v \<notin> node_docs (snd (ConvertToDense n))" using fresh c(2) by simp
      show ?thesis
        unfolding e using AddDense_inv[OF c(1) c(3) v f] c(2) by simp
    next
      case False
      then have e: "Node_Add n v = AddSparse n v"
        using Sparse by (auto simp: Node_Add_def Let_def)
      show ?thesis unfolding e using AddSparse_inv[OF inv Sparse v fresh] by simp
    qed
  qed
  then show "node_inv (snd (Node_Add n v))"
    and "node_docs (snd (Node_Add n v)) = insert v (node_docs n)" by simp_all
qed

lemma Node_Delete_inv:
  assumes inv: "node_inv n" and mem: "v \<in> node_docs n"
  shows "fst (Node_Delete n v) = 0"
    and "node_inv (snd (Node_Delete n v))"
    and "node_docs (snd (Node_Delete n v)) = node_docs n - {v}"
proof -
  have "fst (Node_Delete n v) = 0 \<and> node_inv (snd (Node_Delete n v))
        \<and> node_docs (snd (Node_Delete n v)) = node_docs n - {v}"
  proof (cases "node_type n")
    case Dense
    then show ?thesis
      using DeleteDense_inv[OF inv Dense mem] by (simp add: Node_Delete_def)
  next
    case Sparse
    then show ?thesis
      using DeleteSparse_inv[OF inv Sparse mem] by (simp add: Node_Delete_def)
  qed
  then show "fst (Node_Delete n v) = 0" and "node_inv (snd (Node_Delete n v))"
    and "node_docs (snd (Node_Delete n v)) = node_docs n - {v}" by simp_all
qed

lemma Node_Add_new:
  assumes v: "0 \<le> v" "v < 1073741824"
  shows "node_inv (snd (Node_Add Node_new v))"
    and "node_docs (snd (Node_Add Node_new v)) = {v}"
proof -
  have c: "cdiv v 64 = v div 64" using v by (simp add: cdiv_nonneg)
  define A where "A = v div 64 * 64"
  have A: "A \<le> v" "v < A + 64" "A mod 64 = 0" "0 \<le> A"
    using align_down[of v] v unfolding A_def by simp_all
  have AM: "A + 63 \<le> 2147483647" using align_bound(2)[OF v(2)] unfolding align_up A_def .
  let ?r = "\<lparr> node_min = v, node_max = v, node_min_aligned = A, node_max_aligned = A + 63,
              node_type = Sparse, node_capacity = 1, node_size = 1, data_dense = [],
              data_sparse = [v], n_extend = 0 \<rparr>"
  have "Node_Add Node_new v = AddSparse Node_new v"
    by (simp add: Node_Add_def Node_new_def INT_MAX_def Let_def)
  also have "snd \<dots> = ?r"
    using v
    by (simp add: AddSparse_def sparse_bounds_def sparse_grow_def Node_new_def INT_MAX_def
          Let_def op_len_def c align_up A_def malloc_int_def wr_int_def)
  finally have r: "snd (Node_Add Node_new v) = ?r" .
  show "node_inv (snd (Node_Add Node_new v))"
    unfolding r using A AM by (simp add: node_inv_def INT_MAX_def)
  show "node_docs (snd (Node_Add Node_new v)) = {v}"
    unfolding r by (simp add: node_docs_def)
qed

lemma Node_Add_Delete:
  assumes "node_inv n" "0 \<le> v" "v < 1073741824" "v \<notin> node_docs n"
  shows "node_inv (snd (Node_Delete (snd (Node_Add n v)) v))"
    and "node_docs (snd (Node_Delete (snd (Node_Add n v)) v)) = node_docs n"
proof -
  note a = Node_Add_inv[OF assms]
  have m: "v \<in> node_docs (snd (Node_Add n v))" unfolding a(2) by simp
  note d = Node_Delete_inv[OF a(1) m]
  show "node_inv (snd (Node_Delete (snd (Node_Add n v)) v))" by (rule d(2))
  show "node_docs (snd (Node_Delete (snd (Node_Add n v)) v)) = node_docs n"
    unfolding d(3) a(2) using assms(4) by simp
qed

lemma Node_new_Add_Delete:
  assumes "0 \<le> v" "v < 1073741824"
  shows "node_inv (snd (Node_Delete (snd (Node_Add Node_new v)) v))"
    and "node_docs (snd (Node_Delete (snd (Node_Add Node_new v)) v)) = {}"
proof -
  note a = Node_Add_new[OF assms]
  have m: "v \<in> node_docs (snd (Node_Add Node_new v))" unfolding a(2) by simp
  note d = Node_Delete_inv[OF a(1) m]
  show "node_inv (snd (Node_Delete (snd (Node_Add Node_new v)) v))" by (rule d(2))
  show "node_docs (snd (Node_Delete (snd (Node_Add Node_new v)) v)) = {}"
    unfolding d(3) a(2) by simp
qed

section \<open>The numeric search\<close>

lemma scan_loop_closed:
  "scan_loop cursor key_u (ls, a, b, c, d) =
     (let ns = map snd (takeWhile (\<lambda>(k, p). \<not> keycmp k key_u > 0) cursor) in
      (ls @ ns, fold (\<lambda>p x. min x (node_min p)) ns a,
       fold (\<lambda>p x. min x (node_min_aligned p)) ns b,
       fold (\<lambda>p x. max x (node_max p)) ns c,
       fold (\<lambda>p x. max x (node_max_aligned p)) ns d))"
proof (induction cursor arbitrary: ls a b c d)
  case Nil
  then show ?case by simp
next
  case (Cons e cursor)
  obtain k p where e: "e = (k, p)" by (cases e)
  show ?case unfolding e by (simp add: Cons.IH Let_def)
qed

lemma fold_min_props:
  fixes f :: "'a \<Rightarrow> int"
  shows "fold (\<lambda>p x. min x (f p)) ns a \<le> a"
    and "\<forall>p \<in> set ns. fold (\<lambda>p x. min x (f p)) ns a \<le> f p"
    and "fold (\<lambda>p x. min x (f p)) ns a = a \<or> fold (\<lambda>p x. min x (f p)) ns a \<in> f ` set ns"
proof -
  have "fold (\<lambda>p x. min x (f p)) ns a \<le> a
        \<and> (\<forall>p \<in> set ns. fold (\<lambda>p x. min x (f p)) ns a \<le> f p)
        \<and> (fold (\<lambda>p x. min x (f p)) ns a = a \<or> fold (\<lambda>p x. min x (f p)) ns a \<in> f ` set ns)"
  proof (induction ns arbitrary: a)
    case Nil
    then show ?case by simp
  next
    case (Cons q ns)
    from Cons.IH[of "min a (f q)"] show ?case by (auto simp: min_def split: if_splits)
  qed
  then show "fold (\<lambda>p x. min x (f p)) ns a \<le> a"
    and "\<forall>p \<in> set ns. fold (\<lambda>p x. min x (f p)) ns a \<le> f p"
    and "fold (\<lambda>p x. min x (f p)) ns a = a \<or> fold (\<lambda>p x. min x (f p)) ns a \<in> f ` set ns"
    by simp_all
qed

lemma fold_max_props:
  fixes f :: "'a \<Rightarrow> int"
  shows "a \<le> fold (\<lambda>p x. max x (f p)) ns a"
    and "\<forall>p \<in> set ns. f p \<le> fold (\<lambda>p x. max x (f p)) ns a"
    and "fold (\<lambda>p x. max x (f p)) ns a = a \<or> fold (\<lambda>p x. max x (f p)) ns a \<in> f ` set ns"
proof -
  have "a \<le> fold (\<lambda>p x. max x (f p)) ns a
        \<and> (\<forall>p \<in> set ns. f p \<le> fold (\<lambda>p x. max x (f p)) ns a)
        \<and> (fold (\<lambda>p x. max x (f p)) ns a = a \<or> fold (\<lambda>p x. max x (f p)) ns a \<in> f ` set ns)"
  proof (induction ns arbitrary: a)
    case Nil
    then show ?case by simp
  next
    case (Cons q ns)
    from Cons.IH[of "max a (f q)"] show ?case by (auto simp: max_def split: if_splits)
  qed
  then show "a \<le> fold (\<lambda>p x. max x (f p)) ns a"
    and "\<forall>p \<in> set ns. f p \<le> fold (\<lambda>p x. max x (f p)) ns a"
    and "fold (\<lambda>p x. max x (f p)) ns a = a \<or> fold (\<lambda>p x. max x (f p)) ns a \<in> f ` set ns"
    by simp_all
qed

lemma node_inv_basic:
  assumes "node_inv n"
  shows "0 \<le> node_min_aligned n" "node_min_aligned n mod 64 = 0"
      "(node_max_aligned n + 1) mod 64 = 0" "node_min_aligned n \<le> node_min n"
      "node_min n \<le> node_max n" "node_max n \<le> node_max_aligned n"
      "node_max_aligned n \<le> INT_MAX"
  using assms by (simp_all add: node_inv_def)

lemma node_shape_basic:
  assumes "node_shape n"
  shows "0 \<le> node_min_aligned n" "node_min_aligned n mod 64 = 0"
      "(node_max_aligned n + 1) mod 64 = 0" "node_min_aligned n \<le> node_min n"
      "node_min n \<le> node_max n" "node_max n \<le> node_max_aligned n"
      "node_max_aligned n \<le> INT_MAX"
  using assms by (simp_all add: node_shape_def)

lemma node_inv_shape: "node_inv n \<Longrightarrow> node_shape n"
  by (cases "node_type n") (simp_all add: node_inv_def node_shape_def)

lemma merge_numeric_docs:
  assumes inv: "node_shape p"
    and ext: "min_doc \<le> node_min p" "node_max p \<le> max_doc"
      "mA \<le> node_min_aligned p" "node_max_aligned p \<le> MA"
    and al: "mA mod 64 = 0" and len: "64 * int (length bm) = MA - mA + 1"
  shows "length (fst (merge_numeric min_doc max_doc mA MA p (bm, t))) = length bm"
    and "bitmap_test (fst (merge_numeric min_doc max_doc mA MA p (bm, t))) (d - mA)
         \<longleftrightarrow> bitmap_test bm (d - mA) \<or> d \<in> node_docs p"
proof -
  note b = node_shape_basic[OF inv]
  have "length (fst (merge_numeric min_doc max_doc mA MA p (bm, t))) = length bm
      \<and> (bitmap_test (fst (merge_numeric min_doc max_doc mA MA p (bm, t))) (d - mA)
         \<longleftrightarrow> bitmap_test bm (d - mA) \<or> d \<in> node_docs p)"
  proof (cases "node_type p")
    case Dense
    have i8: "64 * int (length (data_dense p)) = node_max_aligned p - node_min_aligned p + 1"
      using inv Dense by (simp add: node_shape_def)
    define off where "off = (node_min_aligned p - mA) div 64"
    have o64: "64 * off = node_min_aligned p - mA"
      unfolding off_def using diff_aligned(1)[OF b(2) al] by (rule mult64_div)
    have o0: "0 \<le> off" using o64 ext(3) by simp
    have co: "cdiv (node_min_aligned p - mA) 64 = off"
      unfolding off_def using ext(3) by (simp add: cdiv_nonneg)
    have cn: "cdiv (node_max_aligned p - node_min_aligned p + 1) 64 = int (length (data_dense p))"
      using i8[symmetric] by (simp add: cdiv_nonneg)
    have fit: "off + int (length (data_dense p)) \<le> int (length bm)"
      using o64 i8 len ext(4) by simp
    have e: "fst (merge_numeric min_doc max_doc mA MA p (bm, t))
             = or_words (int (length (data_dense p))) off (data_dense p) bm"
      using Dense ext by (simp add: merge_numeric_def Let_def op_len_def co cn)
    have s: "d - mA - 64 * off = d - node_min_aligned p" using o64 by simp
    show ?thesis
      unfolding e or_words_test[OF o0 refl fit] s node_docs_Dense_iff[OF Dense] by simp
  next
    case Sparse
    have i: "0 \<le> node_size p" "node_size p \<le> int (length (data_sparse p))"
      "\<forall>x \<in> set (take (nat (node_size p)) (data_sparse p)).
          node_min_aligned p \<le> x \<and> x \<le> node_max_aligned p"
      using inv Sparse by (simp_all add: node_shape_def)
    have e: "fst (merge_numeric min_doc max_doc mA MA p (bm, t))
             = set_sparse (node_size p) mA (data_sparse p) bm"
      using Sparse ext by (simp add: merge_numeric_def Let_def)
    note sc = sparse_set_conv[OF i(1) i(2)]
    have "(\<exists>j. 0 \<le> j \<and> j < node_size p \<and> d - mA = rd_int (data_sparse p) j - mA
               \<and> 0 \<le> d - mA \<and> d - mA < 64 * int (length bm))
          \<longleftrightarrow> d \<in> node_docs p" (is "?L \<longleftrightarrow> ?R")
    proof
      assume ?L
      then show ?R unfolding node_docs_Sparse[OF Sparse] sc by auto
    next
      assume ?R
      then obtain j where j: "0 \<le> j" "j < node_size p" "d = rd_int (data_sparse p) j"
        unfolding node_docs_Sparse[OF Sparse] sc by blast
      have "d \<in> set (take (nat (node_size p)) (data_sparse p))" unfolding sc using j by blast
      then have "node_min_aligned p \<le> d \<and> d \<le> node_max_aligned p" using i(3) by blast
      then have "0 \<le> d - mA \<and> d - mA < 64 * int (length bm)" using ext len by simp
      then show ?L using j by auto
    qed
    then show ?thesis unfolding e set_sparse_test by simp
  qed
  then show "length (fst (merge_numeric min_doc max_doc mA MA p (bm, t))) = length bm"
    and "bitmap_test (fst (merge_numeric min_doc max_doc mA MA p (bm, t))) (d - mA)
         \<longleftrightarrow> bitmap_test bm (d - mA) \<or> d \<in> node_docs p" by simp_all
qed

lemma fold_merge_numeric_docs:
  assumes "\<forall>p \<in> set ns. node_shape p \<and> min_doc \<le> node_min p \<and> node_max p \<le> max_doc
              \<and> mA \<le> node_min_aligned p \<and> node_max_aligned p \<le> MA"
    and al: "mA mod 64 = 0" and len: "64 * int (length bm) = MA - mA + 1"
  shows "bitmap_test (fst (fold (merge_numeric min_doc max_doc mA MA) ns (bm, t))) (d - mA)
         \<longleftrightarrow> bitmap_test bm (d - mA) \<or> (\<exists>p \<in> set ns. d \<in> node_docs p)"
  using assms(1) len
proof (induction ns arbitrary: bm t)
  case Nil
  then show ?case by simp
next
  case (Cons q ns)
  obtain bm' t' where m: "merge_numeric min_doc max_doc mA MA q (bm, t) = (bm', t')"
    by (cases "merge_numeric min_doc max_doc mA MA q (bm, t)")
  have q: "node_shape q" "min_doc \<le> node_min q" "node_max q \<le> max_doc"
    "mA \<le> node_min_aligned q" "node_max_aligned q \<le> MA" using Cons.prems(1) by simp_all
  note mq = merge_numeric_docs[OF q al Cons.prems(2), of t, unfolded m fst_conv]
  have l: "64 * int (length bm') = MA - mA + 1" using mq(1) Cons.prems(2) by simp
  have r: "\<forall>p \<in> set ns. node_shape p \<and> min_doc \<le> node_min p \<and> node_max p \<le> max_doc
              \<and> mA \<le> node_min_aligned p \<and> node_max_aligned p \<le> MA"
    using Cons.prems(1) by simp
  show ?case
    using Cons.IH[OF r l, of t'] mq(2)[of d] by (auto simp: m)
qed

lemma result_docs_new [simp]: "result_docs RangeQueryResult_new = {}"
  by (simp add: result_docs_def RangeQueryResult_new_def bitmap_docs_def)

lemma Search_numeric_unfold:
  assumes "is_numeric idx"
  shows "Search idx lo hi out =
     (let ns = range_nodes (main_mgr idx) (ReverseEndian lo) (ReverseEndian hi);
          min_doc = fold (\<lambda>p x. min x (node_min p)) ns INT_MAX;
          mA = fold (\<lambda>p x. min x (node_min_aligned p)) ns INT_MAX;
          max_doc = fold (\<lambda>p x. max x (node_max p)) ns 0;
          MA = fold (\<lambda>p x. max x (node_max_aligned p)) ns 0
      in if max_doc - min_doc + 1 \<le> 0 then (0, out)
         else (max_doc - min_doc + 1,
               out\<lparr> r_min_aligned := mA, r_max_aligned := MA,
                    r_bitmap := fst (fold (merge_numeric min_doc max_doc mA MA) ns
                                       (bitmap_create (MA - mA + 1), 0)),
                    r_doc_num := snd (fold (merge_numeric min_doc max_doc mA MA) ns
                                       (bitmap_create (MA - mA + 1), 0)) \<rparr>))"
  using assms
  by (simp add: Search_def scan_loop_closed range_nodes_def Let_def SetRange_def Resize_def
        Size_def SetDocNum_def split: prod.splits)

lemma Search_docs:
  assumes num: "is_numeric idx"
    and inv: "\<forall>p \<in> set (range_nodes (main_mgr idx) (ReverseEndian lo) (ReverseEndian hi)).
                node_shape p"
  shows "result_docs (snd (Search idx lo hi RangeQueryResult_new))
         = (\<Union>p \<in> set (range_nodes (main_mgr idx) (ReverseEndian lo) (ReverseEndian hi)).
              node_docs p)"
proof -
  define ns where "ns = range_nodes (main_mgr idx) (ReverseEndian lo) (ReverseEndian hi)"
  define min_doc where "min_doc = fold (\<lambda>p x. min x (node_min p)) ns INT_MAX"
  define mA where "mA = fold (\<lambda>p x. min x (node_min_aligned p)) ns INT_MAX"
  define max_doc where "max_doc = fold (\<lambda>p x. max x (node_max p)) ns 0"
  define MA where "MA = fold (\<lambda>p x. max x (node_max_aligned p)) ns 0"
  define bm where "bm = fst (fold (merge_numeric min_doc max_doc mA MA) ns
                               (bitmap_create (MA - mA + 1), 0))"
  define tot where "tot = snd (fold (merge_numeric min_doc max_doc mA MA) ns
                               (bitmap_create (MA - mA + 1), 0))"
  have S: "Search idx lo hi RangeQueryResult_new =
             (if max_doc - min_doc + 1 \<le> 0 then (0, RangeQueryResult_new)
              else (max_doc - min_doc + 1,
                    RangeQueryResult_new\<lparr> r_min_aligned := mA, r_max_aligned := MA,
                       r_bitmap := bm, r_doc_num := tot \<rparr>))"
    unfolding Search_numeric_unfold[OF num] Let_def
    unfolding ns_def[symmetric] 
    unfolding min_doc_def[symmetric] mA_def[symmetric] max_doc_def[symmetric] MA_def[symmetric]
    unfolding bm_def[symmetric] tot_def[symmetric] ..
  have invs: "\<forall>p \<in> set ns. node_shape p" using inv unfolding ns_def .
  show ?thesis
  proof (cases "ns = []")
    case True
    then have "max_doc - min_doc + 1 \<le> 0"
      unfolding max_doc_def min_doc_def by (simp add: INT_MAX_def)
    then show ?thesis unfolding S ns_def[symmetric] using True by simp
  next
    case False
    then obtain q where q: "q \<in> set ns" by (cases ns) auto
    note bq = node_shape_basic[OF invs[rule_format, OF q]]
    have lo: "\<forall>p \<in> set ns. min_doc \<le> node_min p" "\<forall>p \<in> set ns. mA \<le> node_min_aligned p"
      unfolding min_doc_def mA_def by (rule fold_min_props(2))+
    have hi: "\<forall>p \<in> set ns. node_max p \<le> max_doc" "\<forall>p \<in> set ns. node_max_aligned p \<le> MA"
      unfolding max_doc_def MA_def by (rule fold_max_props(2))+
    have pos: "\<not> max_doc - min_doc + 1 \<le> 0"
      using lo(1) hi(1) q bq(5) by fastforce
    have i63: "INT_MAX mod 64 = 63" by (simp add: INT_MAX_def)
    have "mA = INT_MAX \<or> mA \<in> node_min_aligned ` set ns"
      unfolding mA_def by (rule fold_min_props(3))
    then have mA_in: "mA \<in> node_min_aligned ` set ns"
    proof
      assume e: "mA = INT_MAX"
      have "mA \<le> node_min_aligned q" using lo(2) q by blast
      then have "node_min_aligned q = INT_MAX" using e bq by simp
      then show ?thesis using bq(2) i63 by simp
    qed
    then obtain p1 where p1: "p1 \<in> set ns" "mA = node_min_aligned p1" by blast
    have al: "mA mod 64 = 0" unfolding p1(2) using node_shape_basic(2)[OF invs[rule_format, OF p1(1)]] .
    have "MA = 0 \<or> MA \<in> node_max_aligned ` set ns"
      unfolding MA_def by (rule fold_max_props(3))
    then have MA_in: "MA \<in> node_max_aligned ` set ns"
    proof
      assume e: "MA = 0"
      have "node_max_aligned q \<le> MA" using hi(2) q by blast
      then have "node_max_aligned q = 0" using e bq by simp
      then show ?thesis using bq(3) by simp
    qed
    then obtain p2 where p2: "p2 \<in> set ns" "MA = node_max_aligned p2" by blast
    have al2: "(MA + 1) mod 64 = 0"
      unfolding p2(2) using node_shape_basic(3)[OF invs[rule_format, OF p2(1)]] .
    have le: "mA \<le> MA" using lo(2) hi(2) q bq by fastforce
    have "(MA - mA + 1) mod 64 = 0"
      using diff_aligned(1)[OF al2 al] by (simp add: algebra_simps)
    moreover have "0 \<le> MA - mA + 1" using le by simp
    ultimately have len: "64 * int (length (bitmap_create (MA - mA + 1))) = MA - mA + 1"
      by (rule length_bitmap_create_aligned)
    have all: "\<forall>p \<in> set ns. node_shape p \<and> min_doc \<le> node_min p \<and> node_max p \<le> max_doc
              \<and> mA \<le> node_min_aligned p \<and> node_max_aligned p \<le> MA"
      using invs lo hi by blast
    have t: "bitmap_test bm (d - mA) \<longleftrightarrow> (\<exists>p \<in> set ns. d \<in> node_docs p)" for d
      unfolding bm_def using fold_merge_numeric_docs[OF all al len, of 0 d] by simp
    show ?thesis
      unfolding S ns_def[symmetric] using pos
      by (auto simp: result_docs_iff t)
  qed
qed

section \<open>The keyed store\<close>

lemma keycmp_lex:
  "(keycmp a b < 0 \<longleftrightarrow> a < b) \<and> (keycmp a b = 0 \<longleftrightarrow> a = b) \<and> (keycmp a b > 0 \<longleftrightarrow> b < a)"
  by (induction a b rule: keycmp.induct) auto

lemma keycmp_less: "keycmp a b < 0 \<longleftrightarrow> a < b"
  and keycmp_eq: "keycmp a b = 0 \<longleftrightarrow> a = b"
  and keycmp_greater: "keycmp a b > 0 \<longleftrightarrow> b < a"
  using keycmp_lex[of a b] by simp_all

lemma keys_sorted_alt: "keys_sorted bt \<longleftrightarrow> sorted_wrt (\<lambda>a b. fst a < fst b) bt"
  by (simp add: keys_sorted_def keycmp_less)

lemma keys_sorted_distinct: "keys_sorted bt \<Longrightarrow> distinct (map fst bt)"
  unfolding keys_sorted_alt
  by (induction bt) auto

lemma dropWhile_sorted:
  fixes bt :: "('a::linorder \<times> 'b) list"
  shows "sorted_wrt (\<lambda>a b. fst a < fst b) bt
   \<Longrightarrow> dropWhile (\<lambda>e. fst e < lo) bt = filter (\<lambda>e. \<not> fst e < lo) bt"
proof (induction bt)
  case Nil
  then show ?case by simp
next
  case (Cons e bt)
  show ?case
  proof (cases "fst e < lo")
    case True
    then show ?thesis using Cons by simp
  next
    case False
    have "\<forall>x \<in> set bt. \<not> fst x < lo" using Cons.prems False by (auto simp: not_less intro: less_imp_le order_trans)
    then have "filter (\<lambda>e. \<not> fst e < lo) bt = bt" by (simp add: filter_id_conv)
    then show ?thesis using False by simp
  qed
qed

lemma takeWhile_sorted:
  fixes bt :: "('a::linorder \<times> 'b) list"
  shows "sorted_wrt (\<lambda>a b. fst a < fst b) bt
   \<Longrightarrow> takeWhile (\<lambda>e. \<not> hi < fst e) bt = filter (\<lambda>e. \<not> hi < fst e) bt"
proof (induction bt)
  case Nil
  then show ?case by simp
next
  case (Cons e bt)
  show ?case
  proof (cases "hi < fst e")
    case False
    then show ?thesis using Cons by simp
  next
    case True
    have "\<forall>x \<in> set bt. hi < fst x" using Cons.prems True by (auto intro: less_trans)
    then have "filter (\<lambda>e. \<not> hi < fst e) bt = []" by (simp add: filter_empty_conv)
    then show ?thesis using True by simp
  qed
qed

lemma set_range_nodes:
  assumes "keys_sorted bt"
  shows "set (range_nodes bt lo hi) = {p. \<exists>k. (k, p) \<in> set bt \<and> \<not> k < lo \<and> \<not> hi < k}"
proof -
  have s: "sorted_wrt (\<lambda>a b. fst a < fst b) bt" using assms by (simp add: keys_sorted_alt)
  have s2: "sorted_wrt (\<lambda>a b. fst a < fst b) (filter (\<lambda>e. \<not> fst e < lo) bt)"
    using s by (rule sorted_wrt_filter)
  have d: "bt_startkey bt lo = filter (\<lambda>e. \<not> fst e < lo) bt"
    unfolding bt_startkey_def using dropWhile_sorted[OF s, of lo]
    by (simp add: keycmp_less case_prod_unfold)
  have "range_nodes bt lo hi
        = map snd (filter (\<lambda>e. \<not> hi < fst e) (filter (\<lambda>e. \<not> fst e < lo) bt))"
    unfolding range_nodes_def d using takeWhile_sorted[OF s2, of hi]
    by (simp add: keycmp_greater case_prod_unfold)
  then show ?thesis by force
qed

lemma set_bt_setnode:
  "set (bt_setnode bt key p) = (\<lambda>(k, q). if k = key then (k, p) else (k, q)) ` set bt"
  by (simp add: bt_setnode_def)

lemma keys_bt_setnode [simp]: "map fst (bt_setnode bt key p) = map fst bt"
  by (induction bt) (auto simp: bt_setnode_def)

lemma keys_sorted_map_fst: "map fst a = map fst b \<Longrightarrow> keys_sorted a = keys_sorted b"
proof -
  assume e: "map fst a = map fst b"
  have "keys_sorted x \<longleftrightarrow> sorted_wrt (<) (map fst x)" for x :: BtMgr
    by (simp add: keys_sorted_alt sorted_wrt_map)
  then show ?thesis using e by simp
qed

lemma keys_sorted_setnode [simp]: "keys_sorted (bt_setnode bt key p) = keys_sorted bt"
  by (rule keys_sorted_map_fst) simp

lemma bt_findkey_setnode:
  "key \<in> fst ` set bt \<Longrightarrow> bt_findkey (bt_setnode bt key p) key = Some p"
  by (induction bt) (auto simp: bt_findkey_def bt_setnode_def)

lemma bt_findkey_Some: "bt_findkey bt key = Some p \<Longrightarrow> (key, p) \<in> set bt"
  by (simp add: bt_findkey_def map_of_SomeD)

lemma bt_findkey_None: "bt_findkey bt key = None \<longleftrightarrow> key \<notin> fst ` set bt"
  by (simp add: bt_findkey_def map_of_eq_None_iff)

lemma set_bt_insertkey:
  "key \<notin> fst ` set bt \<Longrightarrow> set (bt_insertkey bt key p) = insert (key, p) (set bt)"
proof (induction bt)
  case Nil
  then show ?case by simp
next
  case (Cons e bt)
  obtain k q where e: "e = (k, q)" by (cases e)
  have "key \<noteq> k" using Cons.prems e by auto
  then have "keycmp key k \<noteq> 0" by (simp add: keycmp_eq)
  then show ?case using Cons e by auto
qed

lemma keys_sorted_insertkey:
  "keys_sorted bt \<Longrightarrow> key \<notin> fst ` set bt \<Longrightarrow> keys_sorted (bt_insertkey bt key p)"
proof (induction bt)
  case Nil
  then show ?case by (simp add: keys_sorted_def)
next
  case (Cons e bt)
  obtain k q where e: "e = (k, q)" by (cases e)
  have ne: "key \<noteq> k" and nin: "key \<notin> fst ` set bt" using Cons.prems e by auto
  have s: "keys_sorted bt" and lt: "\<forall>x \<in> set bt. k < fst x"
    using Cons.prems(1) e by (auto simp: keys_sorted_alt)
  show ?case
  proof (cases "key < k")
    case True
    then have "bt_insertkey (e # bt) key p = (key, p) # (k, q) # bt"
      by (simp add: e keycmp_less)
    moreover have "\<forall>x \<in> set bt. key < fst x" using lt True by fastforce
    ultimately show ?thesis using Cons.prems(1) True e by (simp add: keys_sorted_alt)
  next
    case False
    then have kk: "k < key" using ne by simp
    then have i: "bt_insertkey (e # bt) key p = (k, q) # bt_insertkey bt key p"
      using False ne by (simp add: e keycmp_less keycmp_eq)
    have "\<forall>x \<in> set (bt_insertkey bt key p). k < fst x"
      unfolding set_bt_insertkey[OF nin] using lt kk by simp
    then show ?thesis
      unfolding i using Cons.IH[OF s nin] by (simp add: keys_sorted_alt)
  qed
qed

lemma bt_setnode_twice [simp]:
  "bt_setnode (bt_setnode bt key p) key q = bt_setnode bt key q"
  by (induction bt) (auto simp: bt_setnode_def)

lemma set_setnode_present:
  assumes d: "distinct (map fst bt)" and m: "(key, p) \<in> set bt"
  shows "set (bt_setnode bt key q) = insert (key, q) (set bt - {(key, p)})"
proof -
  let ?f = "\<lambda>(k, r). if k = key then (k, q) else (k, r)"
  have u: "r = p" if "(key, r) \<in> set bt" for r
    using eq_key_imp_eq_value[OF d that m] .
  have "?f ` set bt = insert (key, q) (set bt - {(key, p)})"
  proof (rule set_eqI, rule iffI)
    fix x assume "x \<in> ?f ` set bt"
    then obtain k r where kr: "(k, r) \<in> set bt" "x = ?f (k, r)" by auto
    show "x \<in> insert (key, q) (set bt - {(key, p)})"
    proof (cases "k = key")
      case True
      then show ?thesis using kr by simp
    next
      case False
      then show ?thesis using kr by simp
    qed
  next
    fix x assume x: "x \<in> insert (key, q) (set bt - {(key, p)})"
    show "x \<in> ?f ` set bt"
    proof (cases "x = (key, q)")
      case True
      have "?f (key, p) = (key, q)" by simp
      then show ?thesis unfolding True using m by (metis (no_types, lifting) image_eqI)
    next
      case False
      then obtain k r where kr: "x = (k, r)" "(k, r) \<in> set bt" "(k, r) \<noteq> (key, p)"
        using x by (cases x) auto
      have "k \<noteq> key" using kr u by auto
      then have "?f (k, r) = (k, r)" by simp
      then show ?thesis unfolding kr(1) using kr(2) by (metis (no_types, lifting) image_eqI)
    qed
  qed
  then show ?thesis unfolding set_bt_setnode .
qed

lemma range_docs_sorted:
  assumes "keys_sorted bt"
  shows "(\<Union>p \<in> set (range_nodes bt lo hi). node_docs p)
         = {d. \<exists>k p. (k, p) \<in> set bt \<and> \<not> k < lo \<and> \<not> hi < k \<and> d \<in> node_docs p}"
  unfolding set_range_nodes[OF assms] by auto

lemma roundtrip_store:
  assumes s: "keys_sorted bt" and inv: "\<forall>(k, p) \<in> set bt. node_inv p"
    and v: "0 \<le> v" "v < 1073741824"
    and fresh: "\<forall>p. bt_findkey bt key = Some p \<longrightarrow> v \<notin> node_docs p"
  shows "keys_sorted (DeleteFromBt v key (InsertToBt v key bt))"
    and "\<forall>(k, p) \<in> set (DeleteFromBt v key (InsertToBt v key bt)). node_inv p"
    and "(\<Union>p \<in> set (range_nodes (DeleteFromBt v key (InsertToBt v key bt)) lo hi). node_docs p)
         = (\<Union>p \<in> set (range_nodes bt lo hi). node_docs p)"
proof -
  let ?bt2 = "DeleteFromBt v key (InsertToBt v key bt)"
  have "\<exists>p2 E. keys_sorted ?bt2 \<and> set ?bt2 = insert (key, p2) (set bt - E)
          \<and> node_inv p2 \<and> (\<forall>(k, q) \<in> E. k = key \<and> node_docs q = node_docs p2)
          \<and> (key \<notin> fst ` set bt \<longrightarrow> node_docs p2 = {})
          \<and> (key \<in> fst ` set bt \<longrightarrow> E \<subseteq> set bt \<and> E \<noteq> {})"
  proof (cases "bt_findkey bt key")
    case None
    then have nin: "key \<notin> fst ` set bt" by (simp add: bt_findkey_None)
    define p1 where "p1 = snd (Node_Add Node_new v)"
    define p2 where "p2 = snd (Node_Delete p1 v)"
    define bi where "bi = bt_insertkey bt key Node_new"
    have sbi: "set bi = insert (key, Node_new) (set bt)" "keys_sorted bi"
      unfolding bi_def using set_bt_insertkey[OF nin] keys_sorted_insertkey[OF s nin] by simp_all
    have kin: "key \<in> fst ` set bi" unfolding sbi by simp
    have b1: "InsertToBt v key bt = bt_setnode bi key p1"
      using None by (simp add: InsertToBt_def bi_def p1_def)
    have f1: "bt_findkey (bt_setnode bi key p1) key = Some p1"
      using kin by (rule bt_findkey_setnode)
    have b2: "?bt2 = bt_setnode bi key p2"
      unfolding b1 by (simp add: DeleteFromBt_def f1 p2_def)
    have dk: "distinct (map fst bi)" using sbi(2) by (rule keys_sorted_distinct)
    have "(key, Node_new) \<in> set bi" unfolding sbi by simp
    from set_setnode_present[OF dk this, of p2]
    have st: "set ?bt2 = insert (key, p2) (set bt - {(key, Node_new)})"
      unfolding b2 sbi by auto
    have "(key, Node_new) \<notin> set bt" using nin by force
    then have st': "set ?bt2 = insert (key, p2) (set bt - {})" using st by simp
    have "node_inv p2" "node_docs p2 = {}"
      unfolding p2_def p1_def using Node_new_Add_Delete[OF v] by simp_all
    moreover have "keys_sorted ?bt2" unfolding b2 using sbi(2) by simp
    ultimately show ?thesis using st' nin by blast
  next
    case (Some p)
    then have m: "(key, p) \<in> set bt" by (rule bt_findkey_Some)
    then have kin: "key \<in> fst ` set bt" by force
    have ip: "node_inv p" using inv m by blast
    have fp: "v \<notin> node_docs p" using fresh Some by simp
    define p1 where "p1 = snd (Node_Add p v)"
    define p2 where "p2 = snd (Node_Delete p1 v)"
    have b1: "InsertToBt v key bt = bt_setnode bt key p1"
      using Some by (simp add: InsertToBt_def p1_def)
    have f1: "bt_findkey (bt_setnode bt key p1) key = Some p1"
      using kin by (rule bt_findkey_setnode)
    have b2: "?bt2 = bt_setnode bt key p2"
      unfolding b1 by (simp add: DeleteFromBt_def f1 p2_def)
    have dk: "distinct (map fst bt)" using s by (rule keys_sorted_distinct)
    have st: "set ?bt2 = insert (key, p2) (set bt - {(key, p)})"
      unfolding b2 by (rule set_setnode_present[OF dk m])
    have "node_inv p2" "node_docs p2 = node_docs p"
      unfolding p2_def p1_def using Node_Add_Delete[OF ip v fp] by simp_all
    moreover have "keys_sorted ?bt2" unfolding b2 using s by simp
    ultimately show ?thesis using st m kin by (intro exI[of _ p2] exI[of _ "{(key, p)}"]) simp
  qed
  then obtain p2 E where r: "keys_sorted ?bt2" "set ?bt2 = insert (key, p2) (set bt - E)"
    "node_inv p2" "\<forall>(k, q) \<in> E. k = key \<and> node_docs q = node_docs p2"
    "key \<notin> fst ` set bt \<longrightarrow> node_docs p2 = {}"
    "key \<in> fst ` set bt \<longrightarrow> E \<subseteq> set bt \<and> E \<noteq> {}" by blast
  show "keys_sorted ?bt2" by (rule r(1))
  show "\<forall>(k, p) \<in> set ?bt2. node_inv p" unfolding r(2) using r(3) inv by auto
  show "(\<Union>p \<in> set (range_nodes ?bt2 lo hi). node_docs p)
         = (\<Union>p \<in> set (range_nodes bt lo hi). node_docs p)"
    unfolding range_docs_sorted[OF r(1)] range_docs_sorted[OF s] r(2)
  proof (rule set_eqI, rule iffI)
    fix d
    assume "d \<in> {d. \<exists>k p. (k, p) \<in> insert (key, p2) (set bt - E) \<and> \<not> k < lo \<and> \<not> hi < k
                      \<and> d \<in> node_docs p}"
    then obtain k p where kp: "(k, p) \<in> insert (key, p2) (set bt - E)" "\<not> k < lo" "\<not> hi < k"
      "d \<in> node_docs p" by blast
    show "d \<in> {d. \<exists>k p. (k, p) \<in> set bt \<and> \<not> k < lo \<and> \<not> hi < k \<and> d \<in> node_docs p}"
    proof (cases "(k, p) = (key, p2)")
      case False
      then show ?thesis using kp by blast
    next
      case True
      then have "node_docs p2 \<noteq> {}" using kp(4) by auto
      then have "key \<in> fst ` set bt" using r(5) by blast
      then obtain e where e: "e \<in> E" "e \<in> set bt" using r(6) by blast
      obtain k' q where kq: "e = (k', q)" by (cases e)
      have "k' = key" "node_docs q = node_docs p2" using r(4) e(1) kq by auto
      then show ?thesis using kp True e(2) kq by blast
    qed
  next
    fix d
    assume "d \<in> {d. \<exists>k p. (k, p) \<in> set bt \<and> \<not> k < lo \<and> \<not> hi < k \<and> d \<in> node_docs p}"
    then obtain k p where kp: "(k, p) \<in> set bt" "\<not> k < lo" "\<not> hi < k" "d \<in> node_docs p"
      by blast
    show "d \<in> {d. \<exists>k p. (k, p) \<in> insert (key, p2) (set bt - E) \<and> \<not> k < lo \<and> \<not> hi < k
                      \<and> d \<in> node_docs p}"
    proof (cases "(k, p) \<in> E")
      case False
      then show ?thesis using kp by blast
    next
      case True
      then have "k = key" "node_docs p = node_docs p2" using r(4) by auto
      then show ?thesis using kp by blast
    qed
  qed
qed


subsection \<open>The index invariant under Add and Delete\<close>

text \<open>
  The empty store satisfies the index invariant, \<open>Add\<close> of a doc id not yet stored
  under the key keeps it, and so does \<open>Delete\<close> of a doc id stored under the key.
\<close>

lemma InsertToBt_inv:
  assumes s: "keys_sorted bt" and inv: "\<forall>(k, p) \<in> set bt. node_inv p"
    and v: "0 \<le> v" "v < 1073741824"
    and fresh: "\<forall>p. bt_findkey bt key = Some p \<longrightarrow> v \<notin> node_docs p"
  shows "keys_sorted (InsertToBt v key bt)"
    and "\<forall>(k, p) \<in> set (InsertToBt v key bt). node_inv p"
proof -
  have "keys_sorted (InsertToBt v key bt) \<and> (\<forall>(k, p) \<in> set (InsertToBt v key bt). node_inv p)"
  proof (cases "bt_findkey bt key")
    case None
    then have nin: "key \<notin> fst ` set bt" by (simp add: bt_findkey_None)
    define p1 where "p1 = snd (Node_Add Node_new v)"
    define bi where "bi = bt_insertkey bt key Node_new"
    have sbi: "set bi = insert (key, Node_new) (set bt)" "keys_sorted bi"
      unfolding bi_def using set_bt_insertkey[OF nin] keys_sorted_insertkey[OF s nin] by simp_all
    have b1: "InsertToBt v key bt = bt_setnode bi key p1"
      using None by (simp add: InsertToBt_def bi_def p1_def)
    have dk: "distinct (map fst bi)" using sbi(2) by (rule keys_sorted_distinct)
    have "(key, Node_new) \<in> set bi" unfolding sbi by simp
    from set_setnode_present[OF dk this, of p1]
    have st: "set (InsertToBt v key bt) \<subseteq> insert (key, p1) (set bt)"
      unfolding b1 sbi by auto
    have "node_inv p1" unfolding p1_def using Node_Add_new[OF v] by simp
    then have "\<forall>(k, p) \<in> set (InsertToBt v key bt). node_inv p" using st inv by auto
    moreover have "keys_sorted (InsertToBt v key bt)" unfolding b1 using sbi(2) by simp
    ultimately show ?thesis by simp
  next
    case (Some p)
    then have m: "(key, p) \<in> set bt" by (rule bt_findkey_Some)
    have ip: "node_inv p" using inv m by blast
    have fp: "v \<notin> node_docs p" using fresh Some by simp
    define p1 where "p1 = snd (Node_Add p v)"
    have b1: "InsertToBt v key bt = bt_setnode bt key p1"
      using Some by (simp add: InsertToBt_def p1_def)
    have dk: "distinct (map fst bt)" using s by (rule keys_sorted_distinct)
    have st: "set (InsertToBt v key bt) = insert (key, p1) (set bt - {(key, p)})"
      unfolding b1 by (rule set_setnode_present[OF dk m])
    have "node_inv p1" unfolding p1_def using Node_Add_inv[OF ip v fp] by simp
    then have "\<forall>(k, p) \<in> set (InsertToBt v key bt). node_inv p" unfolding st using inv by auto
    moreover have "keys_sorted (InsertToBt v key bt)" unfolding b1 using s by simp
    ultimately show ?thesis by simp
  qed
  then show "keys_sorted (InsertToBt v key bt)"
    and "\<forall>(k, p) \<in> set (InsertToBt v key bt). node_inv p" by simp_all
qed

lemma DeleteFromBt_inv:
  assumes s: "keys_sorted bt" and inv: "\<forall>(k, p) \<in> set bt. node_inv p"
    and stored: "\<exists>p. bt_findkey bt key = Some p \<and> v \<in> node_docs p"
  shows "keys_sorted (DeleteFromBt v key bt)"
    and "\<forall>(k, p) \<in> set (DeleteFromBt v key bt). node_inv p"
proof -
  obtain p where p: "bt_findkey bt key = Some p" "v \<in> node_docs p" using stored by blast
  then have m: "(key, p) \<in> set bt" by (simp add: bt_findkey_Some)
  have ip: "node_inv p" using inv m by blast
  define p1 where "p1 = snd (Node_Delete p v)"
  have b1: "DeleteFromBt v key bt = bt_setnode bt key p1"
    using p(1) by (simp add: DeleteFromBt_def p1_def)
  have dk: "distinct (map fst bt)" using s by (rule keys_sorted_distinct)
  have st: "set (DeleteFromBt v key bt) = insert (key, p1) (set bt - {(key, p)})"
    unfolding b1 by (rule set_setnode_present[OF dk m])
  have "node_inv p1" unfolding p1_def using Node_Delete_inv[OF ip p(2)] by simp
  then show "\<forall>(k, p) \<in> set (DeleteFromBt v key bt). node_inv p" unfolding st using inv by auto
  show "keys_sorted (DeleteFromBt v key bt)" unfolding b1 using s by simp
qed

lemma index_inv_empty: "index_inv \<lparr> main_mgr = [], is_numeric = b, kDelim = d \<rparr>"
  by (simp add: index_inv_def keys_sorted_def)

lemma index_inv_Add:
  assumes "is_numeric idx" "index_inv idx" "0 \<le> v" "v < 1073741824" "not_inserted idx key v"
  shows "index_inv (snd (FieldRangeIndex_Add idx key v))"
proof -
  have fr: "\<forall>p. bt_findkey (main_mgr idx) (ReverseEndian key) = Some p \<longrightarrow> v \<notin> node_docs p"
    using assms(5) by (auto simp: not_inserted_def split: option.splits)
  from InsertToBt_inv[OF _ _ assms(3,4) fr] assms(1,2)
  show ?thesis by (simp add: index_inv_def FieldRangeIndex_Add_def)
qed

lemma index_inv_Delete:
  assumes "is_numeric idx" "index_inv idx" "stored_under idx key v"
  shows "index_inv (snd (FieldRangeIndex_Delete idx key v))"
proof -
  have st: "\<exists>p. bt_findkey (main_mgr idx) (ReverseEndian key) = Some p \<and> v \<in> node_docs p"
    using assms(3) by (auto simp: stored_under_def split: option.splits)
  from DeleteFromBt_inv[OF _ _ st] assms(1,2)
  show ?thesis by (simp add: index_inv_def FieldRangeIndex_Delete_def)
qed


section \<open>The size of a node\<close>

lemma finite_bits [simp]: "finite {k. bitmap_test buf k}"
proof -
  have "{k. bitmap_test buf k} \<subseteq> {0..<64 * int (length buf)}"
    using bitmap_test_range by auto
  then show ?thesis by (rule finite_subset) simp
qed

lemma bitmap_count_card: "bitmap_count buf = card {k. bitmap_test buf k}"
proof -
  have "set (bitmap_docs 0 buf) = {k. bitmap_test buf k}"
    by (rule set_eqI) (simp add: bitmap_docs_iff)
  then have "card {k. bitmap_test buf k} = card (set (bitmap_docs 0 buf))" by simp
  also have "\<dots> = length (bitmap_docs 0 buf)" by (rule distinct_card) simp
  finally show ?thesis by (simp add: bitmap_count_def)
qed

lemma bitmap_count_create [simp]: "bitmap_count (bitmap_create n) = 0"
  by (simp add: bitmap_count_card)

lemma bitmap_count_set: "bitmap_count (bitmap_set buf i) \<le> bitmap_count buf + 1"
proof -
  have "{k. bitmap_test (bitmap_set buf i) k} \<subseteq> insert i {k. bitmap_test buf k}"
    by (auto simp: bitmap_test_set)
  then have "card {k. bitmap_test (bitmap_set buf i) k} \<le> card (insert i {k. bitmap_test buf k})"
    by (intro card_mono) simp_all
  also have "\<dots> \<le> card {k. bitmap_test buf k} + 1" by (simp add: card_insert_if)
  finally show ?thesis by (simp add: bitmap_count_card)
qed

lemma bitmap_count_unset:
  "bitmap_test buf i \<Longrightarrow> int (bitmap_count (bitmap_unset buf i)) = int (bitmap_count buf) - 1"
proof -
  assume t: "bitmap_test buf i"
  have "{k. bitmap_test (bitmap_unset buf i) k} = {k. bitmap_test buf k} - {i}"
    by (auto simp: bitmap_test_unset)
  then have "card {k. bitmap_test (bitmap_unset buf i) k} = card {k. bitmap_test buf k} - 1"
    using t by simp
  moreover have "1 \<le> card {k. bitmap_test buf k}"
  proof -
    have "{k. bitmap_test buf k} \<noteq> {}" using t by blast
    then have "0 < card {k. bitmap_test buf k}" by (simp add: card_gt_0_iff)
    then show ?thesis by simp
  qed
  ultimately show ?thesis by (simp add: bitmap_count_card of_nat_diff)
qed

lemma bitmap_count_copy:
  assumes "\<And>k. rd_word dst k = 0"
  shows "bitmap_count (copy_words n shift ori dst) \<le> bitmap_count ori"
proof -
  have rd: "rd_word (copy_words n shift ori dst) k =
              (if shift \<le> k \<and> k < shift + n \<and> 0 \<le> k \<and> k < int (length dst)
               then rd_word ori (k - shift) else 0)" for k
    unfolding copy_words_def
    using for_loop_words_rd [where F = "\<lambda>j w. rd_word ori j" and off = shift and n = n
        and dst = dst and k = k] assms
    by simp
  have "{k. bitmap_test (copy_words n shift ori dst) k}
        \<subseteq> (\<lambda>i. i + 64 * shift) ` {k. bitmap_test ori k}"
  proof
    fix i assume "i \<in> {k. bitmap_test (copy_words n shift ori dst) k}"
    then have "bit (rd_word (copy_words n shift ori dst) (i div 64)) (nat (i mod 64))"
      by (simp add: bitmap_test_def)
    then have "bit (rd_word ori (i div 64 - shift)) (nat (i mod 64))"
      unfolding rd by (simp split: if_splits)
    then have "bitmap_test ori (i - 64 * shift)" by (simp add: bitmap_test_shift)
    then show "i \<in> (\<lambda>i. i + 64 * shift) ` {k. bitmap_test ori k}"
      by (intro image_eqI[where x = "i - 64 * shift"]) simp_all
  qed
  then have "card {k. bitmap_test (copy_words n shift ori dst) k}
             \<le> card ((\<lambda>i. i + 64 * shift) ` {k. bitmap_test ori k})"
    by (intro card_mono) simp_all
  also have "\<dots> \<le> card {k. bitmap_test ori k}" by (rule card_image_le) simp
  finally show ?thesis by (simp add: bitmap_count_card)
qed

lemma rd_word_create [simp]: "rd_word (bitmap_create n) k = 0"
  by (auto simp: rd_word_def bitmap_create_def)

lemma size_inv_AddDense:
  assumes "size_inv n" "node_type n = Dense"
  shows "size_inv (snd (AddDense n v))"
proof -
  have s: "0 \<le> node_size n" "int (bitmap_count (data_dense n)) \<le> node_size n"
    using assms by (simp_all add: size_inv_def)
  have c: "int (bitmap_count (bitmap_set (copy_words a b (data_dense n) (bitmap_create m)) i))
           \<le> node_size n + 1" for a b m i
    using bitmap_count_set[of "copy_words a b (data_dense n) (bitmap_create m)" i]
      bitmap_count_copy[of "bitmap_create m" a b "data_dense n"] s(2) by simp
  have d: "int (bitmap_count (bitmap_set (data_dense n) i)) \<le> node_size n + 1" for i
    using bitmap_count_set[of "data_dense n" i] s(2) by simp
  have e: "int (bitmap_count (bitmap_set (bitmap_create m) i)) \<le> 1" for m i
    using bitmap_count_set[of "bitmap_create m" i] by simp
  show ?thesis
    using assms(2) s(1) c d e by (simp add: AddDense_def Let_def size_inv_def)
qed

lemma size_inv_AddSparse:
  assumes "size_inv n" "node_type n = Sparse"
  shows "size_inv (snd (AddSparse n v))"
  using assms by (simp add: size_inv_def AddSparse_def Let_def sparse_grow_def sparse_bounds_def)

lemma size_inv_ConvertToSparse:
  assumes "size_inv n"
  shows "size_inv (snd (ConvertToSparse n))" "node_type (snd (ConvertToSparse n)) = Sparse"
  using assms by (simp_all add: size_inv_def ConvertToSparse_def Let_def split: prod.splits)

lemma size_inv_ConvertToDense:
  assumes "size_inv n"
  shows "size_inv (snd (ConvertToDense n))" "node_type (snd (ConvertToDense n)) = Dense"
proof -
  define A where "A = node_min_aligned n"
  define M where "M = node_max_aligned n"
  define body where "body = (\<lambda>(i::int) d. let val = rd_int (data_sparse n) i in
                       if val < A \<or> val > M then d else bitmap_set d (val - A))"
  define buf where "buf = for_loop (node_size n) body (bitmap_create (M - A + 1))"
  note cl = conv_dense_loop[where sz = "node_size n" and A = A and M = M
      and sp = "data_sparse n" and buf = "bitmap_create (M - A + 1)", folded body_def buf_def]
  have r: "snd (ConvertToDense n) = n\<lparr> data_dense := buf, node_type := Dense, data_sparse := [] \<rparr>"
    unfolding buf_def body_def A_def M_def
    by (simp add: ConvertToDense_def Let_def)
  show "node_type (snd (ConvertToDense n)) = Dense" by (simp add: r)
  have s: "0 \<le> node_size n" using assms by (simp add: size_inv_def)
  have "{k. bitmap_test buf k} \<subseteq> (\<lambda>j. rd_int (data_sparse n) j - A) ` {0..<node_size n}"
    using cl by auto
  then have "card {k. bitmap_test buf k}
             \<le> card ((\<lambda>j. rd_int (data_sparse n) j - A) ` {0..<node_size n})"
    by (intro card_mono) simp_all
  also have "\<dots> \<le> card {0..<node_size n}" by (rule card_image_le) simp
  finally have "int (bitmap_count buf) \<le> node_size n" using s by (simp add: bitmap_count_card)
  then show "size_inv (snd (ConvertToDense n))" using s by (simp add: r size_inv_def)
qed

lemma size_inv_Node_Add:
  assumes "size_inv n"
  shows "size_inv (snd (Node_Add n v))"
proof (cases "node_type n")
  case Dense
  show ?thesis
    using size_inv_AddDense[OF assms Dense, of v]
      size_inv_AddSparse[OF size_inv_ConvertToSparse[OF assms], of v] Dense
    by (simp add: Node_Add_def Let_def)
next
  case Sparse
  show ?thesis
    using size_inv_AddSparse[OF assms Sparse, of v]
      size_inv_AddDense[OF size_inv_ConvertToDense[OF assms], of v] Sparse
    by (simp add: Node_Add_def Let_def)
qed

lemma find_loop_bounds:
  "0 \<le> i \<Longrightarrow> i \<le> sz \<Longrightarrow> i \<le> find_loop d sz v i \<and> find_loop d sz v i \<le> sz"
proof (induction d sz v i rule: find_loop.induct)
  case (1 d sz v i)
  show ?case
  proof (cases "i < sz \<and> rd_int d i \<noteq> v")
    case True
    then have "find_loop d sz v i = find_loop d sz v (i + 1)" by (subst find_loop.simps) simp
    then show ?thesis using "1.IH" True "1.prems" by simp
  next
    case False
    then have "find_loop d sz v i = i" by (subst find_loop.simps) auto
    then show ?thesis using "1.prems" by simp
  qed
qed

lemma size_inv_Node_Delete:
  assumes "size_inv n" "\<not> absent_in_span n v"
  shows "size_inv (snd (Node_Delete n v))"
proof (cases "node_type n")
  case Sparse
  have s: "0 \<le> node_size n" using assms by (simp add: size_inv_def)
  from find_loop_bounds[OF order_refl s, of "data_sparse n" v]
  have "find_loop (data_sparse n) (node_size n) v 0 \<noteq> node_size n \<longrightarrow> 1 \<le> node_size n"
    by simp
  then show ?thesis
    using Sparse s by (auto simp: Node_Delete_def DeleteSparse_def Let_def size_inv_def)
next
  case Dense
  have s: "0 \<le> node_size n" "int (bitmap_count (data_dense n)) \<le> node_size n"
    using assms Dense by (simp_all add: size_inv_def)
  show ?thesis
  proof (cases "v - node_min_aligned n < 0 \<or> v > node_max_aligned n")
    case True
    then show ?thesis
      using Dense assms(1) by (auto simp: Node_Delete_def DeleteDense_def Let_def)
  next
    case False
    then have t: "bitmap_test (data_dense n) (v - node_min_aligned n)"
      using assms(2) Dense by (simp add: absent_in_span_def)
    have "{k. bitmap_test (data_dense n) k} \<noteq> {}" using t by blast
    then have "0 < card {k. bitmap_test (data_dense n) k}" by (simp add: card_gt_0_iff)
    then have "1 \<le> node_size n" using s(2) by (simp add: bitmap_count_card)
    then show ?thesis
      using False Dense s bitmap_count_unset[OF t]
      by (simp add: Node_Delete_def DeleteDense_def Let_def size_inv_def)
  qed
qed

lemma size_inv_run:
  "size_inv n \<Longrightarrow> no_absent_dense_delete n ops \<Longrightarrow> size_inv (run_ops n ops)"
proof (induction ops arbitrary: n)
  case Nil
  then show ?case by (simp add: run_ops_def)
next
  case (Cons op ops)
  show ?case
  proof (cases op)
    case (OpAdd v)
    then show ?thesis
      using Cons.IH[OF size_inv_Node_Add[OF Cons.prems(1), of v]] Cons.prems(2)
      by (simp add: run_ops_def)
  next
    case (OpDelete v)
    then show ?thesis
      using Cons.IH[OF size_inv_Node_Delete[OF Cons.prems(1), of v]] Cons.prems(2)
      by (simp add: run_ops_def)
  qed
qed

lemma Node_Delete_keeps_bounds:
  "node_min (snd (Node_Delete n v)) = node_min n \<and> node_max (snd (Node_Delete n v)) = node_max n"
  by (simp add: Node_Delete_def DeleteDense_def DeleteSparse_def Let_def)


subsection \<open>Loops that fill a buffer\<close>

lemma length_copy_loop: "length (fold (\<lambda>i out. out[i := f i]) [0..<n] out) = length out"
  by (induction n) auto

lemma copy_loop_nth:
  "n \<le> length out \<Longrightarrow> i < n \<Longrightarrow> fold (\<lambda>i out. out[i := f i]) [0..<n] out ! i = f i"
proof (induction n arbitrary: i)
  case 0
  then show ?case by simp
next
  case (Suc n)
  show ?case using Suc by (cases "i = n") (auto simp: nth_list_update length_copy_loop)
qed

lemma add_0x80_xor: "(x::byte) + 0x80 = x XOR 0x80"
proof -
  have e: "(0x80::byte) = 2 ^ 7" by simp
  have "x XOR 2 ^ 7 = flip_bit 7 x" by (simp add: flip_bit_eq_xor)
  also have "\<dots> = (if bit x 7 then x - 2 ^ 7 else x + 2 ^ 7)"
    by (simp add: flip_bit_eq_if set_bit_eq unset_bit_eq)
  also have "\<dots> = x + 2 ^ 7" by simp
  finally show ?thesis unfolding e by simp
qed

section \<open>Key normalisation\<close>

text \<open>
  Claim C8. For every byte string of length \<open>n \<ge> 1\<close>, \<open>ReverseEndian\<close> yields the
  reversed byte string with \<open>0x80\<close> XORed into its first byte: \<open>out[0] = in[n - 1] XOR
  0x80\<close> and \<open>out[i] = in[n - 1 - i]\<close> for \<open>0 < i < n\<close>. The addition of \<open>0x80\<close>
  that the code performs on an \<open>unsigned char\<close> is this XOR.
\<close>

theorem ReverseEndian_reverses_and_flips:
  assumes "length inp = n" and "1 \<le> n"
  shows "length (ReverseEndian inp) = n
       \<and> ReverseEndian inp ! 0 = inp ! (n - 1) XOR 0x80
       \<and> (\<forall>i. 0 < i \<and> i < n \<longrightarrow> ReverseEndian inp ! i = inp ! (n - 1 - i))"
proof -
  let ?out = "fold (\<lambda>i out. out[i := inp ! (n - i - 1)]) [0..<n] (replicate n 0)"
  have R: "ReverseEndian inp = ?out[0 := ?out ! 0 + 0x80]"
    using assms by (simp add: ReverseEndian_def Let_def)
  have len: "length ?out = n" by (simp add: length_copy_loop)
  have nth: "?out ! i = inp ! (n - i - 1)" if "i < n" for i
    using that by (simp add: copy_loop_nth)
  have "ReverseEndian inp ! 0 = ?out ! 0 + 0x80"
    unfolding R using assms len by simp
  also have "\<dots> = inp ! (n - 1) XOR 0x80"
    using assms nth[of 0] by (simp add: add_0x80_xor)
  finally have first: "ReverseEndian inp ! 0 = inp ! (n - 1) XOR 0x80" .
  have rest: "ReverseEndian inp ! i = inp ! (n - 1 - i)" if "0 < i" "i < n" for i
    unfolding R using that nth[of i] by simp
  show ?thesis using first rest len R by simp
qed

theorem ReverseEndian_witness:
  "length [1, 2, 3, 0x85 :: byte] = 4 \<and> (1::nat) \<le> 4
   \<and> ReverseEndian [1, 2, 3, 0x85] ! 0 = 0x05
   \<and> ReverseEndian [1, 2, 3, 0x85] ! 3 = 1"
  using ReverseEndian_reverses_and_flips [of "[1, 2, 3, 0x85]" 4] by simp

section \<open>The coordinator and unregistered fields\<close>

text \<open>
  Claim C9. For every doc id and every field id whose slot in the array \<open>fields_\<close> is
  null, \<open>MultiFieldsRangeIndex::Add\<close> and \<open>MultiFieldsRangeIndex::Delete\<close> return 0
  and leave the coordinator as it is: nothing is enqueued and no field index changes.
\<close>

theorem null_slot_mutation_ignored:
  assumes "0 \<le> fld" and "fld < int (length (fields_v m))" and "fields_v m ! nat fld = None"
  shows "MultiFieldsRangeIndex_Add m docid fld = Inr (0, m)
       \<and> MultiFieldsRangeIndex_Delete m docid fld = Inr (0, m)"
  using assms
  by (simp add: MultiFieldsRangeIndex_Add_def MultiFieldsRangeIndex_Delete_def fields_at_def)

theorem null_slot_mutation_ignored_witness:
  "(0::int) \<le> 0 \<and> 0 < int (length (fields_v one_null_field))
   \<and> fields_v one_null_field ! nat 0 = None
   \<and> MultiFieldsRangeIndex_Add one_null_field 7 0 = Inr (0, one_null_field)
   \<and> MultiFieldsRangeIndex_Delete one_null_field 7 0 = Inr (0, one_null_field)"
  using null_slot_mutation_ignored [of 0 one_null_field 7]
  by (simp add: one_null_field_def)

text \<open>
  Filters whose field ids all lie inside \<open>fields_\<close>: when one of them names a null slot,
  the first loop returns \<open>-1\<close>, whatever the other filters are.
\<close>

lemma preprocess_rejects_null:
  assumes "\<forall>f \<in> set filters. 0 \<le> field f \<and> field f < int (length (fields_v m))"
    and "\<exists>f \<in> set filters. fields_v m ! nat (field f) = None"
  shows "preprocess m filters acc = Inr None"
  using assms
proof (induction filters arbitrary: acc)
  case Nil
  then show ?case by simp
next
  case (Cons f fs)
  have r: "0 \<le> field f" "field f < int (length (fields_v m))" using Cons.prems(1) by simp_all
  show ?case
  proof (cases "fields_v m ! nat (field f)")
    case None
    then show ?thesis using r by (simp add: fields_at_def)
  next
    case (Some index)
    with Cons.prems have "\<exists>g \<in> set fs. fields_v m ! nat (field g) = None" by auto
    moreover have "\<forall>g \<in> set fs. 0 \<le> field g \<and> field g < int (length (fields_v m))"
      using Cons.prems(1) by simp
    ultimately have "preprocess m fs acc' = Inr None" for acc' using Cons.IH by blast
    with Some r show ?thesis by (simp add: fields_at_def)
  qed
qed

lemma Search_rejects_null_slot:
  assumes "\<forall>f \<in> set filters. 0 \<le> field f \<and> field f < int (length (fields_v m))"
    and "\<exists>f \<in> set filters. fields_v m ! nat (field f) = None"
  shows "MultiFieldsRangeIndex_Search m filters out = Inr (-1, [])"
  using preprocess_rejects_null [OF assms, of "[]"]
  by (simp add: MultiFieldsRangeIndex_Search_def)

lemma preprocess_reads_outside:
  assumes "\<forall>g \<in> set pre. 0 \<le> field g \<and> field g < int (length (fields_v m))
                          \<and> fields_v m ! nat (field g) \<noteq> None"
    and "field f < 0"
  shows "preprocess m (pre @ f # rest) acc = Inl OutOfBounds"
  using assms(1)
proof (induction pre arbitrary: acc)
  case Nil
  show ?case using assms(2) by (simp add: fields_at_def)
next
  case (Cons g gs)
  have r: "0 \<le> field g" "field g < int (length (fields_v m))" using Cons.prems by simp_all
  obtain index where i: "fields_v m ! nat (field g) = Some index" using Cons.prems by auto
  have "preprocess m (gs @ f # rest) acc' = Inl OutOfBounds" for acc'
    using Cons.IH Cons.prems by simp
  then show ?case using r i by (simp add: fields_at_def)
qed

text \<open>
  Claim C10 says that \<open>MultiFieldsRangeIndex::Search\<close> returns \<open>-1\<close> when a filter has
  a negative field id. The first loop reads \<open>fields_[filter.field]\<close> and only then tests
  \<open>filter.field < 0\<close>: when the filters before it name registered fields, the loop
  reaches the filter with the negative id, the read is outside the vector, and the
  search stops at that read instead of returning \<open>-1\<close>.
\<close>

theorem Search_negative_field_reads_outside:
  assumes "\<forall>g \<in> set pre. 0 \<le> field g \<and> field g < int (length (fields_v m))
                          \<and> fields_v m ! nat (field g) \<noteq> None"
    and "field f < 0"
  shows "MultiFieldsRangeIndex_Search m (pre @ f # rest) out = Inl OutOfBounds"
  using preprocess_reads_outside [OF assms, of rest "[]"]
  by (simp add: MultiFieldsRangeIndex_Search_def)

theorem Search_negative_field_reads_outside_witness:
  "map field two_filters = [0, 1]
   \<and> fields_v two_fields = [Some field_with_5, Some field_with_7]
   \<and> field \<lparr> field = -1, lower_value = key42, upper_value = key50, is_union = 1 \<rparr> < 0
   \<and> MultiFieldsRangeIndex_Search two_fields
        (two_filters @ [\<lparr> field = -1, lower_value = key42, upper_value = key50,
                          is_union = 1 \<rparr>]) []
       = Inl OutOfBounds"
proof -
  have h: "\<forall>g \<in> set two_filters. 0 \<le> field g \<and> field g < int (length (fields_v two_fields))
                                 \<and> fields_v two_fields ! nat (field g) \<noteq> None"
    by (simp add: two_filters_def two_fields_def)
  from Search_negative_field_reads_outside
    [OF h, of "\<lparr> field = -1, lower_value = key42, upper_value = key50, is_union = 1 \<rparr>"
       "[]" "[]"]
  show ?thesis by (simp add: two_filters_def two_fields_def)
qed


section \<open>The representation policy\<close>



lemma node_type_AddSparse: "node_type (snd (AddSparse n v)) = node_type n"
  by (simp add: AddSparse_def Let_def sparse_grow_def sparse_bounds_def)

lemma node_type_AddDense: "node_type (snd (AddDense n v)) = node_type n"
  by (simp add: AddDense_def Let_def)


lemma node_type_ConvertToDense: "node_type (snd (ConvertToDense n)) = Dense"
  by (simp add: ConvertToDense_def Let_def)

subsection \<open>A node that becomes Dense\<close>

lemma AddSparse_fields:
  "node_min (snd (AddSparse n v)) = min (node_min n) v"
  "node_max (snd (AddSparse n v)) = max (node_max n) v"
  "node_size (snd (AddSparse n v)) = node_size n + 1"
  by (simp_all add: AddSparse_def Let_def sparse_grow_def sparse_bounds_def)

lemma Node_Add_small_span:
  "node_type n = Sparse \<Longrightarrow> node_max n - node_min n \<le> 100000 \<Longrightarrow> Node_Add n v = AddSparse n v"
  by (simp add: Node_Add_def Let_def)

text \<open>Adding \<open>0, \<dots>, k\<close> in ascending order to a new node, for \<open>k \<le> 100000\<close>.\<close>

lemma ascending_adds:
  assumes "k \<le> 100000"
  shows "node_inv (run_ops Node_new (map OpAdd (map int [0..<Suc k])))
       \<and> node_type (run_ops Node_new (map OpAdd (map int [0..<Suc k]))) = Sparse
       \<and> node_min (run_ops Node_new (map OpAdd (map int [0..<Suc k]))) = 0
       \<and> node_max (run_ops Node_new (map OpAdd (map int [0..<Suc k]))) = int k
       \<and> node_size (run_ops Node_new (map OpAdd (map int [0..<Suc k]))) = int k + 1
       \<and> node_docs (run_ops Node_new (map OpAdd (map int [0..<Suc k]))) = {0..int k}"
  using assms
proof (induction k)
  case 0
  have e: "run_ops Node_new (map OpAdd (map int [0..<Suc 0])) = snd (Node_Add Node_new 0)"
    by (simp add: run_ops_def)
  have s: "Node_Add Node_new 0 = AddSparse Node_new 0"
    by (rule Node_Add_small_span) (simp_all add: Node_new_def INT_MAX_def)
  have n: "node_inv (snd (Node_Add Node_new 0))" "node_docs (snd (Node_Add Node_new 0)) = {0}"
    using Node_Add_new[of 0] by simp_all
  have t: "node_type (snd (AddSparse Node_new 0)) = Sparse"
    by (simp add: node_type_AddSparse Node_new_def)
  have f: "node_min (snd (AddSparse Node_new 0)) = 0" "node_max (snd (AddSparse Node_new 0)) = 0"
    "node_size (snd (AddSparse Node_new 0)) = 1"
    by (simp_all add: AddSparse_fields Node_new_def INT_MAX_def)
  show ?case unfolding e using n t f unfolding s by simp
next
  case (Suc k)
  define n where "n = run_ops Node_new (map OpAdd (map int [0..<Suc k]))"
  have ih: "node_inv n" "node_type n = Sparse" "node_min n = 0" "node_max n = int k"
    "node_size n = int k + 1" "node_docs n = {0..int k}"
    using Suc.IH Suc.prems unfolding n_def by simp_all
  have "run_ops Node_new (map OpAdd (map int [0..<Suc (Suc k)])) = snd (Node_Add n (int (Suc k)))"
    unfolding n_def by (simp add: run_ops_def del: of_nat_Suc)
  then have e: "run_ops Node_new (map OpAdd (map int [0..<Suc (Suc k)]))
                = snd (Node_Add n (int k + 1))"
    by (simp add: add.commute)
  have s: "Node_Add n (int k + 1) = AddSparse n (int k + 1)"
    by (rule Node_Add_small_span) (use ih Suc.prems in simp_all)
  have fresh: "int k + 1 \<notin> node_docs n" unfolding ih(6) by simp
  have v: "0 \<le> int k + 1" "int k + 1 < 1073741824" using Suc.prems by simp_all
  note a = Node_Add_inv[OF ih(1) v fresh]
  have t: "node_type (snd (AddSparse n (int k + 1))) = Sparse"
    by (simp add: node_type_AddSparse ih)
  have f: "node_min (snd (AddSparse n (int k + 1))) = 0"
    "node_max (snd (AddSparse n (int k + 1))) = int k + 1"
    "node_size (snd (AddSparse n (int k + 1))) = int k + 1 + 1"
    by (simp_all add: AddSparse_fields ih)
  have d: "insert (int k + 1) {0..int k} = {0..int k + 1}" by auto
  show ?case unfolding e using a t f unfolding s ih(6) d by simp
qed

lemma sparse_reached_props:
  "node_inv sparse_reached" "node_type sparse_reached = Sparse"
  "node_min sparse_reached = 0" "node_max sparse_reached = 100001"
  "node_size sparse_reached = 10002" "node_docs sparse_reached = insert 100001 {0..10000}"
proof -
  define n1 where "n1 = run_ops Node_new (map OpAdd (map int [0..<Suc 10000]))"
  have p1: "node_inv n1" "node_type n1 = Sparse" "node_min n1 = 0" "node_max n1 = 10000"
    "node_size n1 = 10001" "node_docs n1 = {0..10000}"
    using ascending_adds[of 10000] unfolding n1_def by simp_all
  have e: "sparse_reached = snd (Node_Add n1 100001)"
    unfolding sparse_reached_def ascending_node_def n1_def by (simp del: upt_Suc)
  have s2: "Node_Add n1 100001 = AddSparse n1 100001"
    by (rule Node_Add_small_span) (simp_all add: p1)
  show "node_inv sparse_reached" "node_docs sparse_reached = insert 100001 {0..10000}"
    using Node_Add_inv[OF p1(1), of 100001] unfolding e p1(6) by simp_all
  show "node_type sparse_reached = Sparse" "node_min sparse_reached = 0"
    "node_max sparse_reached = 100001" "node_size sparse_reached = 10002"
    unfolding e s2 by (simp_all add: node_type_AddSparse AddSparse_fields p1)
qed

lemma dense_reached_props:
  "node_inv dense_reached" "node_type dense_reached = Dense"
  "node_docs dense_reached = {0..10000} \<union> {100001, 100002}"
  "node_size dense_reached = 10003"
proof -
  note p = sparse_reached_props
  have s3: "Node_Add sparse_reached 100002 = AddDense (snd (ConvertToDense sparse_reached)) 100002"
    by (simp add: Node_Add_def Let_def p density_gt_01_def)
  have a3: "node_inv dense_reached"
    "node_docs dense_reached = insert 100002 (insert 100001 {0..10000})"
    using Node_Add_inv[OF p(1), of 100002] unfolding dense_reached_def p(6) by simp_all
  show t3: "node_type dense_reached = Dense"
    unfolding dense_reached_def s3 by (simp add: node_type_AddDense node_type_ConvertToDense)
  show "node_inv dense_reached" by (rule a3(1))
  show "node_docs dense_reached = {0..10000} \<union> {100001, 100002}" unfolding a3(2) by auto
  have "node_size dense_reached = int (card (node_docs dense_reached))"
    using a3(1) t3 by (simp add: node_inv_def)
  also have "\<dots> = 10003" unfolding a3(2) by simp
  finally show "node_size dense_reached = 10003" .
qed

text \<open>The doc id 50000 lies in the span of that Dense node and is not stored in it.\<close>

lemma dense_reached_absent:
  "absent_in_span dense_reached 50000" "50000 \<notin> node_docs dense_reached"
proof -
  note p = dense_reached_props
  let ?n = dense_reached
  have docs: "node_docs ?n = set (bitmap_docs (node_min_aligned ?n) (data_dense ?n))"
    by (simp add: node_docs_def p(2))
  have len: "64 * int (length (data_dense ?n)) = node_max_aligned ?n - node_min_aligned ?n + 1"
    using p(1) p(2) by (simp add: node_inv_def)
  have "0 \<in> node_docs ?n" "100002 \<in> node_docs ?n" unfolding p(3) by simp_all
  then have t: "bitmap_test (data_dense ?n) (0 - node_min_aligned ?n)"
    "bitmap_test (data_dense ?n) (100002 - node_min_aligned ?n)"
    unfolding docs bitmap_docs_iff by simp_all
  have lo: "node_min_aligned ?n \<le> 0" using bitmap_test_range[OF t(1)] by simp
  have hi: "100002 \<le> node_max_aligned ?n" using bitmap_test_range[OF t(2)] len by simp
  show nd: "50000 \<notin> node_docs ?n" unfolding p(3) by simp
  then have "\<not> bitmap_test (data_dense ?n) (50000 - node_min_aligned ?n)"
    unfolding docs bitmap_docs_iff .
  then show "absent_in_span ?n 50000" using lo hi p(2) by (simp add: absent_in_span_def)
qed





section \<open>Searches on concrete indexes\<close>

lemma scenario1_search:
  "Search scenario1 key42 key50 RangeQueryResult_new =
     (991, \<lparr> r_min_aligned = 0, r_max_aligned = 1023,
             r_bitmap = bitmap_set (bitmap_set (bitmap_set (bitmap_set
                          (bitmap_create 1024) 10) 11) 12) 1000,
             r_doc_num = 4 \<rparr>)"
  by code_simp

text \<open>
  Claim C2, as stated: after the inserts of doc ids 10, 11 and 12 under key 42 and of
  doc id 1000 under key 50, \<open>Search(lower = 42, upper = 50)\<close> returns the count 4. The
  value returned is not 4.
\<close>

theorem scenario1_return_counterexample:
  "fst (Search scenario1 key42 key50 RangeQueryResult_new) \<noteq> 4"
  by (simp add: scenario1_search)

text \<open>
  Claim C2, amended: after these inserts \<open>Search(lower = 42, upper = 50)\<close> produces a
  result bitmap with exactly the bits 10, 11, 12 and 1000 set, stores the count 4 in the
  \<open>doc_num\<close> of the result, and returns \<open>max - min + 1 = 1000 - 10 + 1 = 991\<close>.
\<close>

theorem scenario1_search_result:
  "result_docs (snd (Search scenario1 key42 key50 RangeQueryResult_new)) = {10, 11, 12, 1000}
   \<and> r_min_aligned (snd (Search scenario1 key42 key50 RangeQueryResult_new)) = 0
   \<and> r_doc_num (snd (Search scenario1 key42 key50 RangeQueryResult_new)) = 4
   \<and> fst (Search scenario1 key42 key50 RangeQueryResult_new) = 991"
proof -
  have "result_docs (snd (Search scenario1 key42 key50 RangeQueryResult_new))
        = {10, 11, 12, 1000}"
    by (rule set_eqI)
       (simp add: scenario1_search result_docs_iff bitmap_test_set length_bitmap_create)
  then show ?thesis by (simp add: scenario1_search)
qed

lemma tag_scenario_search:
  "Search_tags tag_scenario [0x61, 1, 0x62] RangeQueryResult_new =
     (2, \<lparr> r_min_aligned = 0, r_max_aligned = 127,
           r_bitmap = bitmap_set (bitmap_set (bitmap_create 128) 5) 36,
           r_doc_num = 2 \<rparr>)"
  by code_simp

lemma tag_scenario_nodes:
  "map_option (\<lambda>p. (node_type p, take (nat (node_size p)) (data_sparse p)))
     (bt_findkey (main_mgr tag_scenario) [0x62]) = Some (Sparse, [100])"
  by code_simp

text \<open>
  Claim C3 says that the tag \<open>Search\<close> sets, for every stored value \<open>val\<close> of a
  Sparse node, the output bit \<open>val - out.min_aligned\<close>, so that the bit of a doc id is
  set iff the id was inserted under a queried tag. With doc id 5 under the tag \<open>a\<close> and
  doc id 100 under the tag \<open>b\<close>, the search for \<open>a\001b\<close> yields a bitmap over
  \<open>[0, 127]\<close> that stands for the doc ids 5 and 36: the value 100 of the node of
  \<open>b\<close> is set at \<open>100 - 64\<close>, its distance from the \<open>min_aligned\<close> of that node.
\<close>

theorem tag_search_uses_node_base:
  "result_docs (snd (Search_tags tag_scenario [0x61, 1, 0x62] RangeQueryResult_new)) = {5, 36}
   \<and> r_min_aligned (snd (Search_tags tag_scenario [0x61, 1, 0x62] RangeQueryResult_new)) = 0
   \<and> map_option (\<lambda>p. (node_type p, take (nat (node_size p)) (data_sparse p)))
        (bt_findkey (main_mgr tag_scenario) [0x62]) = Some (Sparse, [100])"
proof -
  have "result_docs (snd (Search_tags tag_scenario [0x61, 1, 0x62] RangeQueryResult_new))
        = {5, 36}"
    by (rule set_eqI)
       (simp add: tag_scenario_search result_docs_iff bitmap_test_set length_bitmap_create)
  then show ?thesis by (simp add: tag_scenario_search tag_scenario_nodes)
qed

section \<open>Intersection on concrete results\<close>

lemma field_with_5_search:
  "Search field_with_5 key42 key42 RangeQueryResult_new =
     (1, \<lparr> r_min_aligned = 0, r_max_aligned = 63,
           r_bitmap = bitmap_set (bitmap_create 64) 5, r_doc_num = 1 \<rparr>)"
  by code_simp

lemma field_with_7_search:
  "Search field_with_7 key42 key42 RangeQueryResult_new =
     (1, \<lparr> r_min_aligned = 0, r_max_aligned = 63,
           r_bitmap = bitmap_set (bitmap_create 64) 7, r_doc_num = 1 \<rparr>)"
  by code_simp

lemma two_fields_search:
  "MultiFieldsRangeIndex_Search two_fields two_filters [] =
     Inr (64, [\<lparr> r_min_aligned = 0, r_max_aligned = 63,
                 r_bitmap = bitmap_set (bitmap_create 64) 5, r_doc_num = 64 \<rparr>])"
  by code_simp

lemma two_fields_intersect:
  "Intersect [\<lparr> r_min_aligned = 0, r_max_aligned = 63,
                r_bitmap = bitmap_set (bitmap_create 64) 5, r_doc_num = 1 \<rparr>,
              \<lparr> r_min_aligned = 0, r_max_aligned = 63,
                r_bitmap = bitmap_set (bitmap_create 64) 7, r_doc_num = 1 \<rparr>] 1 0
     RangeQueryResult_new =
     Inr (64, \<lparr> r_min_aligned = 0, r_max_aligned = 63,
                r_bitmap = bitmap_set (bitmap_create 64) 5, r_doc_num = 64 \<rparr>)"
  by code_simp

lemma misaligned_intersect:
  "Intersect [result_60_70, result_70_100, result_70_100] 2 0 RangeQueryResult_new =
     Inr (128, \<lparr> r_min_aligned = 64, r_max_aligned = 127,
                 r_bitmap = bitmap_create 64, r_doc_num = 128 \<rparr>)"
  by code_simp

text \<open>
  Claim C1 says that the bit of \<open>d\<close> is set in the output of \<open>Intersect\<close> iff every
  input result has \<open>d\<close> set and \<open>min_doc \<le> d \<le> max_doc\<close>. With doc id 5 in field 0
  and doc id 7 in field 1 the two searches yield the doc sets \<open>{5}\<close> and \<open>{7}\<close>; the
  coordinator calls \<open>Intersect\<close> with \<open>j = 1\<close> and \<open>shortest_idx = 0\<close>, and the output
  stands for \<open>{5}\<close>: the loop \<open>for (i = 0; i < j; ++i)\<close> never reaches the result of
  index \<open>j\<close>. With the results \<open>{60, 70}\<close> over \<open>[0, 127]\<close> (the shortest) and
  \<open>{70, 100}\<close> over \<open>[64, 127]\<close> the output over \<open>[64, 127]\<close> is empty, although 70
  is set in every input: the shortest result is copied from its word 0, not from the
  word of \<open>min_doc\<close>.
\<close>

theorem Intersect_skips_last_result:
  "result_docs (snd (Search field_with_5 key42 key42 RangeQueryResult_new)) = {5}
   \<and> result_docs (snd (Search field_with_7 key42 key42 RangeQueryResult_new)) = {7}
   \<and> map_sum id (\<lambda>(c, r). (c, r_min_aligned r, r_max_aligned r, result_docs r))
        (Intersect [snd (Search field_with_5 key42 key42 RangeQueryResult_new),
                    snd (Search field_with_7 key42 key42 RangeQueryResult_new)] 1 0
           RangeQueryResult_new) = Inr (64, 0, 63, {5})
   \<and> map_sum id (\<lambda>(c, rs). (c, map result_docs rs))
        (MultiFieldsRangeIndex_Search two_fields two_filters []) = Inr (64, [{5}])
   \<and> result_docs result_60_70 = {60, 70}
   \<and> result_docs result_70_100 = {70, 100}
   \<and> map_sum id (\<lambda>(c, r). (c, r_min_aligned r, r_max_aligned r, result_docs r))
        (Intersect [result_60_70, result_70_100, result_70_100] 2 0 RangeQueryResult_new)
      = Inr (128, 64, 127, {})"
proof -
  have d5: "result_docs \<lparr> r_min_aligned = 0, r_max_aligned = 63,
              r_bitmap = bitmap_set (bitmap_create 64) 5, r_doc_num = c \<rparr> = {5}" for c
    by (rule set_eqI) (simp add: result_docs_iff bitmap_test_set length_bitmap_create)
  have d7: "result_docs \<lparr> r_min_aligned = 0, r_max_aligned = 63,
              r_bitmap = bitmap_set (bitmap_create 64) 7, r_doc_num = c \<rparr> = {7}" for c
    by (rule set_eqI) (simp add: result_docs_iff bitmap_test_set length_bitmap_create)
  have a: "result_docs result_60_70 = {60, 70}"
    by (rule set_eqI)
       (simp add: result_60_70_def result_docs_iff bitmap_test_set length_bitmap_create)
  have b: "result_docs result_70_100 = {70, 100}"
    by (rule set_eqI)
       (auto simp: result_70_100_def result_docs_iff bitmap_test_set length_bitmap_create)
  have e: "result_docs \<lparr> r_min_aligned = 64, r_max_aligned = 127,
              r_bitmap = bitmap_create 64, r_doc_num = c \<rparr> = {}" for c
    by (rule set_eqI) (simp add: result_docs_iff)
  show ?thesis
    unfolding field_with_5_search field_with_7_search snd_conv two_fields_intersect
      two_fields_search misaligned_intersect
    by (simp add: d5 d7 a b e)
qed

section \<open>Deleting from a node\<close>

text \<open>
  Claim C4 says that \<open>Delete(v)\<close> returns NotFound when \<open>v\<close> is not in the set. On a
  Dense node \<open>DeleteDense\<close> tests the span only: for a doc id inside
  \<open>[min_aligned, max_aligned]\<close> whose bit is clear it returns 0 and decrements
  \<open>size_\<close>, where \<open>DeleteSparse\<close> returns \<open>-1\<close> and changes nothing. The node
  \<open>dense_reached\<close>, built by \<open>Add\<close> alone, is Dense and holds 10003 doc ids;
  \<open>Delete(50000)\<close>, a doc id it does not hold, returns 0 and leaves its size at 10002.
\<close>

theorem DeleteDense_absent_returns_ok:
  assumes "node_type n = Dense"
    and "node_min_aligned n \<le> v" and "v \<le> node_max_aligned n"
    and "\<not> bitmap_test (data_dense n) (v - node_min_aligned n)"
  shows "fst (Node_Delete n v) = 0
       \<and> node_size (snd (Node_Delete n v)) = node_size n - 1"
  using assms by (simp add: Node_Delete_def DeleteDense_def Let_def)

theorem DeleteDense_absent_returns_ok_witness:
  "node_type dense_reached = Dense
   \<and> node_min_aligned dense_reached \<le> 50000 \<and> 50000 \<le> node_max_aligned dense_reached
   \<and> \<not> bitmap_test (data_dense dense_reached) (50000 - node_min_aligned dense_reached)
   \<and> 50000 \<notin> node_docs dense_reached
   \<and> fst (Node_Delete dense_reached 50000) = 0
   \<and> node_size dense_reached = 10003
   \<and> node_size (snd (Node_Delete dense_reached 50000)) = 10002"
  using DeleteDense_absent_returns_ok [of dense_reached 50000]
    dense_reached_absent dense_reached_props
  by (simp add: absent_in_span_def)

text \<open>
  Claim C6, as stated: a node of size 0 has \<open>min = INT_MAX\<close> and \<open>max = -1\<close>, also
  after a sequence of \<open>Add\<close> and \<open>Delete\<close>. After \<open>Add(5)\<close> and \<open>Delete(5)\<close> on a
  new node the size is 0 and \<open>min = max = 5\<close>.
\<close>

theorem emptied_node_counterexample:
  "\<not> (node_size (snd (Node_Delete (snd (Node_Add Node_new 5)) 5)) = 0
       \<longrightarrow> node_min (snd (Node_Delete (snd (Node_Add Node_new 5)) 5)) = INT_MAX
         \<and> node_max (snd (Node_Delete (snd (Node_Add Node_new 5)) 5)) = -1)"
  by code_simp


text \<open>
  Claim C6, amended. A node in its initial state has \<open>size = 0\<close>, \<open>min = INT_MAX\<close>
  and \<open>max = -1\<close>. After any sequence of \<open>Add\<close> and \<open>Delete\<close> on a new node in
  which no \<open>Delete\<close> is applied to a Dense node for a doc id inside its span whose bit
  is clear, \<open>size \<ge> 0\<close>. \<open>Delete\<close> never changes \<open>min\<close> and \<open>max\<close>, so a node
  emptied by \<open>Delete\<close> keeps the \<open>min\<close> and \<open>max\<close> of its earlier contents.
\<close>

theorem Node_size_nonneg:
  assumes "no_absent_dense_delete Node_new ops"
  shows "node_size Node_new = 0 \<and> node_min Node_new = INT_MAX \<and> node_max Node_new = -1
       \<and> 0 \<le> node_size (run_ops Node_new ops)
       \<and> node_min (snd (Node_Delete n v)) = node_min n
       \<and> node_max (snd (Node_Delete n v)) = node_max n"
proof -
  have "size_inv Node_new" by (simp add: size_inv_def Node_new_def)
  then have "size_inv (run_ops Node_new ops)" using assms by (rule size_inv_run)
  then show ?thesis
    using Node_Delete_keeps_bounds[of n v] by (simp add: size_inv_def Node_new_def)
qed

theorem Node_size_nonneg_witness:
  "no_absent_dense_delete Node_new [OpAdd 5, OpDelete 5, OpDelete 5]
   \<and> 0 \<le> node_size (run_ops Node_new [OpAdd 5, OpDelete 5, OpDelete 5])
   \<and> node_min (snd (Node_Delete (snd (Node_Add Node_new 5)) 5)) = 5"
proof -
  have h: "no_absent_dense_delete Node_new [OpAdd 5, OpDelete 5, OpDelete 5]" by code_simp
  have m: "node_min (snd (Node_Add Node_new 5)) = 5" by code_simp
  from Node_size_nonneg[OF h, of "snd (Node_Add Node_new 5)" 5] h m show ?thesis by simp
qed

section \<open>Insert followed by delete\<close>

subsection \<open>On a store that satisfies the index invariant\<close>

text \<open>
  For a numeric field whose store satisfies the index invariant (it holds for the empty
  store and is kept by \<open>Add\<close> of a doc id not yet stored under the key and by
  \<open>Delete\<close> of a stored one), a key and a doc id in \<open>[0, 2^30)\<close> not yet stored under
  that key: \<open>FieldRangeIndex::Add(key, doc_id)\<close> followed by
  \<open>FieldRangeIndex::Delete(key, doc_id)\<close> leaves the set of documents of the bitmap
  that a numeric range \<open>Search\<close> returns as it was before the insert, for every range.
  The documents of a result are its set bits counted from its \<open>min_aligned\<close>, since
  the insert may widen the range of the result.
\<close>

lemma Add_Delete_roundtrip:
  assumes num: "is_numeric idx" and inv: "index_inv idx"
    and v: "0 \<le> v" "v < 1073741824"
    and fresh: "not_inserted idx key v"
  shows "result_docs (snd (Search
            (snd (FieldRangeIndex_Delete (snd (FieldRangeIndex_Add idx key v)) key v))
            lower upper RangeQueryResult_new))
         = result_docs (snd (Search idx lower upper RangeQueryResult_new))"
proof -
  let ?bt = "main_mgr idx"
  let ?k = "ReverseEndian key"
  let ?bt2 = "DeleteFromBt v ?k (InsertToBt v ?k ?bt)"
  let ?idx2 = "snd (FieldRangeIndex_Delete (snd (FieldRangeIndex_Add idx key v)) key v)"
  have s: "keys_sorted ?bt" and ni: "\<forall>(k, p) \<in> set ?bt. node_inv p"
    using inv by (simp_all add: index_inv_def)
  have fr: "\<forall>p. bt_findkey ?bt ?k = Some p \<longrightarrow> v \<notin> node_docs p"
    using fresh by (auto simp: not_inserted_def split: option.splits)
  note rt = roundtrip_store[OF s ni v fr]
  have i2: "main_mgr ?idx2 = ?bt2" "is_numeric ?idx2"
    using num by (simp_all add: FieldRangeIndex_Add_def FieldRangeIndex_Delete_def)
  have a: "\<forall>p \<in> set (range_nodes ?bt (ReverseEndian lower) (ReverseEndian upper)). node_shape p"
    unfolding set_range_nodes[OF s] using ni node_inv_shape by blast
  have b: "\<forall>p \<in> set (range_nodes (main_mgr ?idx2) (ReverseEndian lower) (ReverseEndian upper)).
             node_shape p"
    unfolding i2 set_range_nodes[OF rt(1)] using rt(2) node_inv_shape by blast
  show ?thesis
    unfolding Search_docs[OF num a] Search_docs[OF i2(2) b] i2(1) by (rule rt(3))
qed

lemma Add_Delete_roundtrip_scenario1:
  "is_numeric scenario1 \<and> index_inv scenario1 \<and> (0::int) \<le> 13 \<and> (13::int) < 1073741824
   \<and> not_inserted scenario1 key42 13
   \<and> result_docs (snd (Search
         (snd (FieldRangeIndex_Delete (snd (FieldRangeIndex_Add scenario1 key42 13)) key42 13))
         key42 key50 RangeQueryResult_new))
       = result_docs (snd (Search scenario1 key42 key50 RangeQueryResult_new))"
proof -
  have h1: "is_numeric scenario1" by code_simp
  have h2: "index_inv scenario1" by code_simp
  have h3: "not_inserted scenario1 key42 13" by code_simp
  from Add_Delete_roundtrip[OF h1 h2 _ _ h3, of key42 key50] h1 h2 h3 show ?thesis by simp
qed

subsection \<open>After a Delete of a doc id that a Dense node does not hold\<close>

lemma bits_below_prefix:
  assumes "m \<le> N"
  shows "take (length (bits_below old m)) (bits_below old N) = bits_below old m"
proof -
  have "[0..<N] = [0..<m] @ [m..<N]"
    using assms by (metis le_add_diff_inverse upt_add_eq_append zero_le)
  then have "bits_below old N = bits_below old m @ filter (bitmap_test old) (map int [m..<N])"
    by (simp add: bits_below_def)
  then show ?thesis by simp
qed

lemma cts_loop_truncated:
  assumes "m \<le> N" and "length sp = sz" and "sz \<le> length (bits_below old N)"
    and "length (bits_below old m) \<le> sz"
    and "take (length (bits_below old m)) sp = map (\<lambda>j. j + A) (bits_below old m)"
  shows "fst (cts_loop old A (int sz) (int N) (int m) sp (int (length (bits_below old m))))
         = take sz (map (\<lambda>j. j + A) (bits_below old N))"
  using assms
proof (induction "N - m" arbitrary: m sp)
  case 0
  then have mn: "m = N" by simp
  have l: "length (bits_below old N) = sz" using "0.prems"(3,4) unfolding mn by simp
  have "sp = take (length (bits_below old N)) sp" using "0.prems"(2) l by simp
  then have "sp = map (\<lambda>j. j + A) (bits_below old N)" using "0.prems"(5) mn by simp
  then show ?case unfolding mn using l by (subst cts_loop.simps) simp
next
  case (Suc k)
  then have lt: "m < N" by simp
  then have sm: "Suc m \<le> N" "k = N - Suc m" using Suc.hyps(2) by simp_all
  let ?idx = "length (bits_below old m)"
  have i1: "int m + 1 = int (Suc m)" by simp
  show ?case
  proof (cases "bitmap_test old (int m)")
    case False
    then have b: "bits_below old (Suc m) = bits_below old m" by (simp add: bits_below_Suc)
    have ih: "fst (cts_loop old A (int sz) (int N) (int (Suc m)) sp
                (int (length (bits_below old (Suc m)))))
              = take sz (map (\<lambda>j. j + A) (bits_below old N))"
      by (rule Suc.hyps(1)[OF sm(2) sm(1) Suc.prems(2) Suc.prems(3)])
         (simp_all add: b Suc.prems(4) Suc.prems(5))
    show ?thesis
      by (subst cts_loop.simps) (use lt False ih in \<open>simp add: b i1 del: of_nat_Suc\<close>)
  next
    case True
    then have b: "bits_below old (Suc m) = bits_below old m @ [int m]"
      by (simp add: bits_below_Suc)
    show ?thesis
    proof (cases "?idx < sz")
      case False
      then have e: "?idx = sz" using Suc.prems(4) by simp
      have "sp = take ?idx sp" using Suc.prems(2) e by simp
      then have sp: "sp = map (\<lambda>j. j + A) (bits_below old m)" using Suc.prems(5) by simp
      have "take sz (map (\<lambda>j. j + A) (bits_below old N))
            = map (\<lambda>j. j + A) (take ?idx (bits_below old N))"
        unfolding e by (simp add: take_map)
      also have "\<dots> = map (\<lambda>j. j + A) (bits_below old m)"
        using bits_below_prefix[of m N old] lt by simp
      finally have t: "take sz (map (\<lambda>j. j + A) (bits_below old N)) = sp" using sp by simp
      show ?thesis
        by (subst cts_loop.simps) (use lt True e t in simp)
    next
      case idx: True
      then have idx': "?idx < length sp" using Suc.prems(2) by simp
      let ?sp = "wr_int sp (int ?idx) (int m + A)"
      have w: "?sp = sp[?idx := int m + A]" using idx' by (simp add: wr_int_def)
      have t: "take (length (bits_below old (Suc m))) ?sp
               = map (\<lambda>j. j + A) (bits_below old (Suc m))"
        unfolding b w using idx' Suc.prems(5) by (simp add: take_Suc_conv_app_nth)
      have l: "length ?sp = sz" using Suc.prems(2) by simp
      have l2: "length (bits_below old (Suc m)) \<le> sz" using idx by (simp add: b)
      have ih: "fst (cts_loop old A (int sz) (int N) (int (Suc m)) ?sp
                  (int (length (bits_below old (Suc m)))))
                = take sz (map (\<lambda>j. j + A) (bits_below old N))"
        by (rule Suc.hyps(1)[OF sm(2) sm(1) l Suc.prems(3) l2 t])
      have i2: "int ?idx + 1 = int (length (bits_below old (Suc m)))" by (simp add: b)
      show ?thesis
        by (subst cts_loop.simps) (use lt True idx ih in \<open>simp add: i1 i2 del: of_nat_Suc\<close>)
    qed
  qed
qed

text \<open>
  \<open>ConvertToSparse\<close> keeps the first \<open>size_\<close> documents of the bitmap, in ascending
  order, and stops at the next set bit.
\<close>

lemma ConvertToSparse_truncated:
  assumes sh: "node_shape n" and de: "node_type n = Dense"
    and sz: "0 \<le> node_size n"
      "nat (node_size n) \<le> length (bitmap_docs (node_min_aligned n) (data_dense n))"
  shows "snd (ConvertToSparse n)
         = n\<lparr> data_sparse := take (nat (node_size n))
                                (bitmap_docs (node_min_aligned n) (data_dense n)),
               node_capacity := node_size n, node_type := Sparse, data_dense := [] \<rparr>"
proof -
  define A where "A = node_min_aligned n"
  define old where "old = data_dense n"
  define N where "N = 64 * length old"
  define k where "k = nat (node_size n)"
  have kk: "node_size n = int k" using sz(1) by (simp add: k_def)
  have bd: "bitmap_docs A old = map (\<lambda>j. j + A) (bits_below old N)"
    unfolding N_def by (rule bitmap_docs_bits_below)
  have le: "k \<le> length (bits_below old N)"
    using sz(2) unfolding A_def[symmetric] old_def[symmetric] bd k_def by simp
  have off: "node_max_aligned n - A + 1 = int N"
    using sh de unfolding N_def old_def A_def by (simp add: node_shape_def)
  have m0: "malloc_int (int k) = replicate k 0" by (simp add: malloc_int_def)
  have z: "int 0 = 0" "int (length (bits_below old 0)) = 0" by (simp_all add: bits_below_def)
  have run: "fst (cts_loop old A (int k) (int N) (int 0) (replicate k 0)
                    (int (length (bits_below old 0))))
             = take k (map (\<lambda>j. j + A) (bits_below old N))"
    by (rule cts_loop_truncated) (use le in \<open>simp_all add: bits_below_def\<close>)
  have run': "fst (cts_loop (data_dense n) (node_min_aligned n) (node_size n)
                (node_max_aligned n - node_min_aligned n + 1) 0 (malloc_int (node_size n)) 0)
              = take k (bitmap_docs A old)"
    unfolding old_def[symmetric] A_def[symmetric]
    unfolding off kk m0 bd
    using run unfolding z .
  have r2: "fst (cts_loop (data_dense n) (node_min_aligned n) (node_size n)
                (node_max_aligned n - node_min_aligned n + 1) 0 (malloc_int (node_size n)) 0)
            = take (nat (node_size n)) (bitmap_docs (node_min_aligned n) (data_dense n))"
    using run' unfolding A_def old_def k_def .
  show ?thesis by (simp add: ConvertToSparse_def Let_def split_beta r2)
qed

lemma sorted_bitmap_docs: "sorted (bitmap_docs base buf)"
proof -
  have "sorted_wrt (<) (map int [0..<k])" for k
    by (simp add: sorted_wrt_map)
  then have "sorted_wrt (<) (filter (bitmap_test buf) (map int [0..<64 * length buf]))"
    by (rule sorted_wrt_filter)
  then have "sorted_wrt (<) (bitmap_docs base buf)"
    unfolding bitmap_docs_def by (simp add: sorted_wrt_map)
  then show ?thesis by (rule strict_sorted_imp_sorted)
qed

lemma take_drops_largest:
  fixes xs :: "int list"
  assumes "sorted xs" "distinct xs" "xs \<noteq> []" "x \<in> set xs" "\<forall>y \<in> set xs. y \<le> x"
  shows "set (take (length xs - 1) xs) = set xs - {x}"
proof -
  have "last xs \<in> set xs" using assms(3) by simp
  then have le: "last xs \<le> x" using assms(5) by blast
  obtain i where i: "i < length xs" "xs ! i = x" using assms(4) by (auto simp: in_set_conv_nth)
  have "xs ! i \<le> xs ! (length xs - 1)"
    using assms(1) i(1) by (intro sorted_nth_mono) simp_all
  then have "x \<le> last xs" using i(2) assms(3) by (simp add: last_conv_nth)
  then have l: "last xs = x" using le by simp
  have b: "take (length xs - 1) xs = butlast xs" by (simp add: butlast_conv_take)
  have "xs = butlast xs @ [x]" using assms(3) l by (metis append_butlast_last_id)
  then have "set xs = insert x (set (butlast xs))" "x \<notin> set (butlast xs)"
    using assms(2) by (metis list.simps(15) rotate1.simps(2) set_rotate1,
                        metis distinct.simps(2) distinct1_rotate rotate1.simps(2))
  then show ?thesis unfolding b by auto
qed

lemma AddDense_fields:
  assumes "node_size n \<noteq> 0" "node_min_aligned n \<le> node_min n" "node_min n \<le> node_max n"
    "node_max n \<le> node_max_aligned n"
  shows "node_min (snd (AddDense n v)) = min (node_min n) v"
    and "node_max (snd (AddDense n v)) = max (node_max n) v"
    and "node_size (snd (AddDense n v)) = node_size n + 1"
  using assms by (auto simp: AddDense_def Let_def)

lemma ConvertToDense_fields:
  "node_min (snd (ConvertToDense n)) = node_min n"
  "node_max (snd (ConvertToDense n)) = node_max n"
  "node_size (snd (ConvertToDense n)) = node_size n"
  "node_min_aligned (snd (ConvertToDense n)) = node_min_aligned n"
  "node_max_aligned (snd (ConvertToDense n)) = node_max_aligned n"
  by (simp_all add: ConvertToDense_def Let_def)

lemma dense_reached_bounds:
  "node_min dense_reached = 0" "node_max dense_reached = 100002"
proof -
  note p = sparse_reached_props
  note b = node_inv_basic[OF p(1)]
  have s3: "Node_Add sparse_reached 100002 = AddDense (snd (ConvertToDense sparse_reached)) 100002"
    by (simp add: Node_Add_def Let_def p density_gt_01_def)
  have f: "node_min (snd (AddDense (snd (ConvertToDense sparse_reached)) 100002))
           = min (node_min (snd (ConvertToDense sparse_reached))) 100002"
    "node_max (snd (AddDense (snd (ConvertToDense sparse_reached)) 100002))
           = max (node_max (snd (ConvertToDense sparse_reached))) 100002"
    by (rule AddDense_fields; use b p in \<open>simp add: ConvertToDense_fields\<close>)+
  show "node_min dense_reached = 0" "node_max dense_reached = 100002"
    unfolding dense_reached_def s3 f by (simp_all add: ConvertToDense_fields p)
qed

lemma grown_node_props:
  "node_inv grown_node" "node_type grown_node = Dense"
  "node_docs grown_node = {0..10000} \<union> {100001, 100002, 130000}"
  "node_min grown_node = 0" "node_max grown_node = 130000" "node_size grown_node = 10004"
proof -
  note p = dense_reached_props
  note q = dense_reached_bounds
  note b = node_inv_basic[OF p(1)]
  have s: "Node_Add dense_reached 130000 = AddDense dense_reached 130000"
    by (simp add: Node_Add_def Let_def p q density_lt_008_def)
  have fresh: "130000 \<notin> node_docs dense_reached" unfolding p(3) by simp
  note a = Node_Add_inv[OF p(1) _ _ fresh]
  show "node_inv grown_node" unfolding grown_node_def by (rule a(1)) simp_all
  have "node_docs grown_node = insert 130000 (node_docs dense_reached)"
    unfolding grown_node_def by (rule a(2)) simp_all
  then show "node_docs grown_node = {0..10000} \<union> {100001, 100002, 130000}"
    unfolding p(3) by auto
  show "node_type grown_node = Dense"
    unfolding grown_node_def s by (simp add: node_type_AddDense p)
  have f: "node_min (snd (AddDense dense_reached 130000)) = min (node_min dense_reached) 130000"
    "node_max (snd (AddDense dense_reached 130000)) = max (node_max dense_reached) 130000"
    "node_size (snd (AddDense dense_reached 130000)) = node_size dense_reached + 1"
    by (rule AddDense_fields; use b p in simp)+
  show "node_min grown_node = 0" "node_max grown_node = 130000" "node_size grown_node = 10004"
    unfolding grown_node_def s f by (simp_all add: p q)
qed

lemma stale_node_props:
  "fst (Node_Delete grown_node 50000) = 0"
  "node_shape stale_node" "node_type stale_node = Dense"
  "node_docs stale_node = {0..10000} \<union> {100001, 100002, 130000}"
  "node_min stale_node = 0" "node_max stale_node = 130000" "node_size stale_node = 10003"
proof -
  note p = grown_node_props
  note b = node_inv_basic[OF p(1)]
  have span: "\<not> (50000 - node_min_aligned grown_node < 0 \<or> 50000 > node_max_aligned grown_node)"
    using b p(4) p(5) by simp
  have e: "Node_Delete grown_node 50000
           = (0, grown_node\<lparr> node_size := node_size grown_node - 1,
                  data_dense := bitmap_unset (data_dense grown_node)
                                  (50000 - node_min_aligned grown_node) \<rparr>)"
    using span p(2) by (simp add: Node_Delete_def DeleteDense_def Let_def)
  show "fst (Node_Delete grown_node 50000) = 0" by (simp add: e)
  have st: "stale_node = grown_node\<lparr> node_size := node_size grown_node - 1,
                  data_dense := bitmap_unset (data_dense grown_node)
                                  (50000 - node_min_aligned grown_node) \<rparr>"
    by (simp add: stale_node_def e)
  show "node_type stale_node = Dense" by (simp add: st p)
  show "node_min stale_node = 0" "node_max stale_node = 130000" "node_size stale_node = 10003"
    by (simp_all add: st p)
  have "node_shape grown_node" using p(1) by (rule node_inv_shape)
  then show "node_shape stale_node" using p(2) by (simp add: st node_shape_def)
  have "d \<in> node_docs stale_node \<longleftrightarrow> d \<in> node_docs grown_node" for d
  proof -
    have "d \<in> node_docs stale_node \<longleftrightarrow> d \<in> node_docs grown_node \<and> d \<noteq> 50000"
      by (simp add: st node_docs_def p(2) bitmap_docs_iff bitmap_test_unset)
    then show ?thesis unfolding p(3) by auto
  qed
  then show "node_docs stale_node = {0..10000} \<union> {100001, 100002, 130000}"
    unfolding p(3) by blast
qed

lemma stale_node_roundtrip:
  "node_inv (snd (Node_Delete (snd (Node_Add stale_node 50001)) 50001))"
  "node_docs (snd (Node_Delete (snd (Node_Add stale_node 50001)) 50001))
   = {0..10000} \<union> {100001, 100002}"
proof -
  note p = stale_node_props
  note b = node_shape_basic[OF p(2)]
  define L where "L = bitmap_docs (node_min_aligned stale_node) (data_dense stale_node)"
  define c where "c = snd (ConvertToSparse stale_node)"
  have sL: "set L = {0..10000} \<union> {100001, 100002, 130000}"
    unfolding L_def using p(4) p(3) by (simp add: node_docs_def)
  have dL: "distinct L" "sorted L" unfolding L_def by (simp_all add: sorted_bitmap_docs)
  have "int (length L) = int (card (set L))" using dL(1) by (simp add: distinct_card)
  also have "\<dots> = 10004" unfolding sL by simp
  finally have lL: "length L = 10004" by simp
  have cdef: "c = stale_node\<lparr> data_sparse := take 10003 L, node_capacity := 10003,
                              node_type := Sparse, data_dense := [] \<rparr>"
    unfolding c_def using ConvertToSparse_truncated[OF p(2) p(3)] lL
    by (simp add: p(7) L_def[symmetric])
  have "set (take (length L - 1) L) = set L - {130000}"
    by (rule take_drops_largest[OF dL(2) dL(1)]) (use lL sL in auto)
  then have e1: "set (take 10003 L) = set L - {130000}" using lL by simp
  have e2: "set L - {130000} = {0..10000} \<union> {100001, 100002}" unfolding sL by auto
  have sT: "set (take 10003 L) = {0..10000} \<union> {100001, 100002}" unfolding e1 e2 ..
  have dc: "node_docs c = {0..10000} \<union> {100001, 100002}"
    by (simp add: cdef node_docs_def p(7) sT)
  have tc: "node_type c = Sparse" by (simp add: cdef)
  have ic: "node_inv c"
    unfolding node_inv_def using b p(5) p(6) dL(1) lL
    by (auto simp: cdef p(7) sT)
  have s: "Node_Add stale_node 50001 = AddSparse c 50001"
    by (simp add: Node_Add_def Let_def p density_lt_008_def c_def)
  have fresh: "50001 \<notin> node_docs c" unfolding dc by simp
  note a = AddSparse_inv[OF ic tc _ _ fresh]
  have i5: "node_inv (snd (Node_Add stale_node 50001))" unfolding s by (rule a(1)) simp_all
  have d5: "node_docs (snd (Node_Add stale_node 50001)) = insert 50001 (node_docs c)"
    unfolding s by (rule a(2)) simp_all
  have m: "50001 \<in> node_docs (snd (Node_Add stale_node 50001))" unfolding d5 by simp
  note d = Node_Delete_inv[OF i5 m]
  show "node_inv (snd (Node_Delete (snd (Node_Add stale_node 50001)) 50001))" by (rule d(2))
  show "node_docs (snd (Node_Delete (snd (Node_Add stale_node 50001)) 50001))
        = {0..10000} \<union> {100001, 100002}"
    unfolding d(3) d5 dc by auto
qed

lemma single_store_op:
  assumes "is_numeric idx" "main_mgr idx = [(ReverseEndian key, n)]"
  shows "index_op key idx op = idx\<lparr> main_mgr := [(ReverseEndian key, apply_op n op)] \<rparr>"
  using assms
  by (cases op)
     (simp_all add: index_op_def FieldRangeIndex_Add_def FieldRangeIndex_Delete_def
        InsertToBt_def DeleteFromBt_def bt_findkey_def bt_setnode_def)

lemma single_store_run:
  assumes "is_numeric idx" "main_mgr idx = [(ReverseEndian key, n)]"
  shows "foldl (index_op key) idx ops = idx\<lparr> main_mgr := [(ReverseEndian key, run_ops n ops)] \<rparr>"
  using assms
proof (induction ops arbitrary: idx n)
  case Nil
  then show ?case by (simp add: run_ops_def)
next
  case (Cons op ops)
  let ?i = "idx\<lparr> main_mgr := [(ReverseEndian key, apply_op n op)] \<rparr>"
  have "foldl (index_op key) ?i ops = ?i\<lparr> main_mgr := [(ReverseEndian key, run_ops (apply_op n op) ops)] \<rparr>"
    by (rule Cons.IH) (use Cons.prems in simp_all)
  then show ?case using single_store_op[OF Cons.prems, of op] by (simp add: run_ops_def)
qed

lemma empty_store_run:
  assumes "is_numeric idx" "main_mgr idx = []"
  shows "foldl (index_op key) idx (OpAdd v # ops)
         = idx\<lparr> main_mgr := [(ReverseEndian key, run_ops Node_new (OpAdd v # ops))] \<rparr>"
proof -
  let ?i = "idx\<lparr> main_mgr := [(ReverseEndian key, snd (Node_Add Node_new v))] \<rparr>"
  have a: "index_op key idx (OpAdd v) = ?i"
    using assms
    by (simp add: index_op_def FieldRangeIndex_Add_def InsertToBt_def bt_findkey_def
          bt_setnode_def)
  have "foldl (index_op key) ?i ops
        = ?i\<lparr> main_mgr := [(ReverseEndian key, run_ops (snd (Node_Add Node_new v)) ops)] \<rparr>"
    by (rule single_store_run) (use assms in simp_all)
  then show ?thesis using a by (simp add: run_ops_def)
qed

lemma stale_ops_run: "run_ops Node_new stale_ops = stale_node"
  unfolding stale_ops_def run_ops_def stale_node_def grown_node_def dense_reached_def
    sparse_reached_def ascending_node_def run_ops_def
  by (simp only: map_append foldl_append list.map foldl.simps apply_op.simps)

lemma stale_index_store:
  "is_numeric stale_index" "main_mgr stale_index = [(ReverseEndian key42, stale_node)]"
proof -
  have u: "[0..<10001] = 0 # [Suc 0..<10001]" by (rule upt_conv_Cons) simp
  have c: "stale_ops = OpAdd (int 0) # (map OpAdd (map int [Suc 0..<10001] @ [100001, 100002, 130000])
                                   @ [OpDelete 50000])"
    unfolding stale_ops_def u by (simp only: list.map append_Cons)
  have "stale_index = numeric_index\<lparr> main_mgr := [(ReverseEndian key42, run_ops Node_new stale_ops)] \<rparr>"
    unfolding stale_index_def c
    by (rule empty_store_run) (simp_all add: numeric_index_def)
  then have e: "stale_index = numeric_index\<lparr> main_mgr := [(ReverseEndian key42, stale_node)] \<rparr>"
    unfolding stale_ops_run .
  show "is_numeric stale_index" "main_mgr stale_index = [(ReverseEndian key42, stale_node)]"
    unfolding e by (simp_all add: numeric_index_def)
qed

lemma Search_single_store:
  assumes "is_numeric idx" "main_mgr idx = [(ReverseEndian key, n)]" "node_shape n"
  shows "result_docs (snd (Search idx key key RangeQueryResult_new)) = node_docs n"
proof -
  have r: "range_nodes (main_mgr idx) (ReverseEndian key) (ReverseEndian key) = [n]"
    unfolding assms(2) by (simp add: range_nodes_def bt_startkey_def keycmp_less keycmp_greater)
  show ?thesis
    by (subst Search_docs[OF assms(1)]) (simp_all add: r assms(3))
qed

text \<open>
  Claim C7 says that \<open>Add(key, doc_id)\<close> followed by \<open>Delete(key, doc_id)\<close>, for a
  doc id not inserted under the key before, leaves the result of every numeric range
  \<open>Search\<close> covering the key as it was. On \<open>stale_index\<close> the node of key 42 is
  Dense and holds 10004 doc ids, and the earlier \<open>Delete(50000)\<close> has left its
  \<open>size_\<close> at 10003. \<open>Add(42, 50001)\<close> finds \<open>density < 0.08\<close> and converts the node
  to Sparse; \<open>ConvertToSparse\<close> copies \<open>size_\<close> doc ids and drops the last one,
  130000. After \<open>Delete(42, 50001)\<close> the search on \<open>[42, 42]\<close> no longer returns the
  doc id 130000.
\<close>

theorem roundtrip_after_stale_delete:
  "not_inserted stale_index key42 50001
   \<and> result_docs (snd (Search stale_index key42 key42 RangeQueryResult_new))
       = {0..10000} \<union> {100001, 100002, 130000}
   \<and> result_docs (snd (Search
         (snd (FieldRangeIndex_Delete (snd (FieldRangeIndex_Add stale_index key42 50001))
                 key42 50001))
         key42 key42 RangeQueryResult_new))
       = {0..10000} \<union> {100001, 100002}"
proof -
  note s = stale_index_store
  note p = stale_node_props
  note r = stale_node_roundtrip
  have n: "not_inserted stale_index key42 50001"
    by (simp add: not_inserted_def s bt_findkey_def p)
  have b: "result_docs (snd (Search stale_index key42 key42 RangeQueryResult_new))
           = {0..10000} \<union> {100001, 100002, 130000}"
    using Search_single_store[OF s p(2)] p(4) by simp
  let ?i1 = "snd (FieldRangeIndex_Add stale_index key42 50001)"
  let ?i2 = "snd (FieldRangeIndex_Delete ?i1 key42 50001)"
  have "?i1 = index_op key42 stale_index (OpAdd 50001)" by (simp add: index_op_def)
  then have i1: "?i1 = stale_index\<lparr> main_mgr :=
                   [(ReverseEndian key42, snd (Node_Add stale_node 50001))] \<rparr>"
    using single_store_op[OF s, of "OpAdd 50001"] by simp
  have "?i2 = index_op key42 ?i1 (OpDelete 50001)" by (simp add: index_op_def)
  also have "\<dots> = ?i1\<lparr> main_mgr := [(ReverseEndian key42,
                 snd (Node_Delete (snd (Node_Add stale_node 50001)) 50001))] \<rparr>"
    using single_store_op[of ?i1 key42 "snd (Node_Add stale_node 50001)" "OpDelete 50001"]
    unfolding i1 by (simp add: s)
  finally have i2: "is_numeric ?i2"
    "main_mgr ?i2 = [(ReverseEndian key42,
                      snd (Node_Delete (snd (Node_Add stale_node 50001)) 50001))]"
    unfolding i1 by (simp_all add: s)
  have a: "result_docs (snd (Search ?i2 key42 key42 RangeQueryResult_new))
           = {0..10000} \<union> {100001, 100002}"
    using Search_single_store[OF i2 node_inv_shape[OF r(1)]] r(2) by simp
  show ?thesis using n b a by simp
qed

end
